theory Spec2Isabelle
  imports Main "HOL-Library.Multiset" "HOL-Library.AList"
begin

unbundle bit_operations_syntax

section \<open>Errors raised by the Python code\<close>

datatype error =
    KeyError string
  | IndexError
  | ValueError string
  | TypeError
  | DatabaseError string

section \<open>snowdrop/gpkg.py: the primary key of a GeoPackage table\<close>

text \<open>
  One row of \<^verbatim>\<open>PRAGMA table_info(t)\<close>, restricted to the columns that \<^verbatim>\<open>pk\<close> reads.
  The \<^verbatim>\<open>pk\<close> column of SQLite is an integer: 0 for a column outside the primary key,
  otherwise the 1-based position of the column inside the key. Python tests it for
  truthiness, that is, for being different from 0.
\<close>

record table_field =
  fname :: string
  ftype :: string
  fpk :: int

text \<open>
  The \<^verbatim>\<open>for field in q\<close> loop of \<^verbatim>\<open>pk\<close>: the first argument is what is left of the cursor,
  the second (\<open>seen\<close>) is the list \<^verbatim>\<open>fields\<close> accumulated so far. When the cursor is exhausted the
  code reads \<^verbatim>\<open>fields[0]\<close>, which raises IndexError on a table without columns.
\<close>

fun pk_loop :: "table_field list \<Rightarrow> table_field list \<Rightarrow> error + string" where
  "pk_loop [] seen =
     (case seen of
        [] \<Rightarrow> Inl IndexError
      | f0 # _ \<Rightarrow>
          if ftype f0 = ''INTEGER'' then Inr (fname f0)
          else Inl (ValueError ''No valid GeoPackage primary key field found''))"
| "pk_loop (field # q) seen =
     (if fpk field \<noteq> 0 then Inr (fname field) else pk_loop q (seen @ [field]))"

definition pk :: "table_field list \<Rightarrow> error + string" where
  "pk q = pk_loop q []"

section \<open>kart/point_cloud/metadata_util.py: rewriting and merging tile metadata\<close>

text \<open>
  Python values as far as the metadata code handles them: \<^verbatim>\<open>None\<close>, integers, strings, lists
  and dictionaries with string keys. A dictionary is a map, so that HOL equality of two
  dictionaries is Python's \<^verbatim>\<open>==\<close> (which ignores insertion order).
\<close>

datatype pyval =
    PNone
  | PInt int
  | PStr string
  | PList "pyval list"
  | PDict "string \<Rightarrow> pyval option"

type_synonym pydict = "string \<Rightarrow> pyval option"

text \<open>
  The tile metadata produced by \<^verbatim>\<open>extract_pc_tile_metadata\<close>: a dictionary that always carries
  \<^verbatim>\<open>"format.json"\<close> (a dictionary), \<^verbatim>\<open>"schema.json"\<close> and \<^verbatim>\<open>"crs.wkt"\<close>. The \<^verbatim>\<open>"tile"\<close> entry is
  never read by the functions modelled here and is left out.
\<close>

record tile_metadata =
  format_json :: pydict
  schema_json :: pyval
  crs_wkt :: pyval

text \<open>
  \<^verbatim>\<open>class RewriteMetadata(IntFlag)\<close>. A policy is an integer; \<^verbatim>\<open>FLAG in policy\<close> is
  \<^verbatim>\<open>FLAG & policy == FLAG\<close>.
\<close>

definition NO_REWRITE :: int where "NO_REWRITE = 0"
definition AS_IF_CONVERTED_TO_COPC :: int where "AS_IF_CONVERTED_TO_COPC = 1"
definition DROP_OPTIMIZATION :: int where "DROP_OPTIMIZATION = 2"
definition DROP_FORMAT :: int where "DROP_FORMAT = 4"
definition DROP_SCHEMA :: int where "DROP_SCHEMA = 8"

definition flag_in :: "int \<Rightarrow> int \<Rightarrow> bool" where
  "flag_in flag rewrite_metadata \<longleftrightarrow> flag AND rewrite_metadata = flag"

text \<open>
  The three functions imported from \<^verbatim>\<open>kart.point_cloud.schema_util\<close> are parameters of the
  model; each may return a value or raise.
\<close>

record schema_util =
  equivalent_copc_pdrf :: "pyval \<Rightarrow> error + pyval"
  get_record_length_from_pdrf :: "pyval \<Rightarrow> error + pyval"
  get_schema_from_pdrf :: "pyval \<Rightarrow> error + pyval"

text \<open>\<^verbatim>\<open>s.startswith(p)\<close> and \<^verbatim>\<open>d[k]\<close>, which raises KeyError on a missing key.\<close>

definition startswith :: "string \<Rightarrow> string \<Rightarrow> bool" where
  "startswith s p \<longleftrightarrow> take (length p) s = p"

definition getitem :: "pydict \<Rightarrow> string \<Rightarrow> error + pyval" where
  "getitem d k = (case d k of None \<Rightarrow> Inl (KeyError k) | Some v \<Rightarrow> Inr v)"

definition rewrite_format :: "schema_util \<Rightarrow> tile_metadata \<Rightarrow> int \<Rightarrow> error + pyval" where
  "rewrite_format su tm rewrite_metadata =
     (let orig_format = format_json tm in
      if flag_in DROP_FORMAT rewrite_metadata then Inr (PDict Map.empty)
      else if flag_in DROP_OPTIMIZATION rewrite_metadata then
        Inr (PDict (\<lambda>k. if startswith k ''optimization'' then None else orig_format k))
      else if flag_in AS_IF_CONVERTED_TO_COPC rewrite_metadata then
        (case getitem orig_format ''pointDataRecordFormat'' of
           Inl e \<Rightarrow> Inl e
         | Inr orig_pdrf \<Rightarrow>
             (case equivalent_copc_pdrf su orig_pdrf of
                Inl e \<Rightarrow> Inl e
              | Inr new_pdrf \<Rightarrow>
                  (case get_record_length_from_pdrf su new_pdrf of
                     Inl e \<Rightarrow> Inl e
                   | Inr new_len \<Rightarrow>
                       Inr (PDict [''compression'' \<mapsto> PStr ''laz'',
                                   ''lasVersion'' \<mapsto> PStr ''1.4'',
                                   ''optimization'' \<mapsto> PStr ''copc'',
                                   ''optimizationVersion'' \<mapsto> PStr ''1.0'',
                                   ''pointDataRecordFormat'' \<mapsto> new_pdrf,
                                   ''pointDataRecordLength'' \<mapsto> new_len]))))
      else Inr (PDict orig_format))"

definition rewrite_schema :: "schema_util \<Rightarrow> tile_metadata \<Rightarrow> int \<Rightarrow> error + pyval" where
  "rewrite_schema su tm rewrite_metadata =
     (if flag_in DROP_SCHEMA rewrite_metadata then Inr (PDict Map.empty)
      else
        let orig_schema = schema_json tm in
        if flag_in AS_IF_CONVERTED_TO_COPC rewrite_metadata then
          (case getitem (format_json tm) ''pointDataRecordFormat'' of
             Inl e \<Rightarrow> Inl e
           | Inr orig_pdrf \<Rightarrow>
               (case equivalent_copc_pdrf su orig_pdrf of
                  Inl e \<Rightarrow> Inl e
                | Inr new_pdrf \<Rightarrow> get_schema_from_pdrf su new_pdrf))
        else Inr orig_schema)"

text \<open>
  A value stored in the merged result: a plain value, or a \<^verbatim>\<open>ListOfConflicts\<close> (a list subclass
  that marks a list of conflicting values). The tag is what \<^verbatim>\<open>isinstance\<close> tests. The values
  merged in are plain values: \<^verbatim>\<open>rewrite_and_merge_metadata\<close> never hands a \<^verbatim>\<open>ListOfConflicts\<close> to
  \<^verbatim>\<open>_merge_metadata_field\<close>.
\<close>

datatype 'v field = Resolved 'v | ListOfConflicts "'v list"

type_synonym merged_metadata = "string \<Rightarrow> pyval field option"

definition merge_metadata_field ::
  "(string \<Rightarrow> 'v field option) \<Rightarrow> string \<Rightarrow> 'v \<Rightarrow> (string \<Rightarrow> 'v field option)" where
  "merge_metadata_field output key val =
     (case output key of
        None \<Rightarrow> output(key \<mapsto> Resolved val)
      | Some (ListOfConflicts existing_value) \<Rightarrow>
          if val \<notin> set existing_value
          then output(key \<mapsto> ListOfConflicts (existing_value @ [val]))
          else output
      | Some (Resolved existing_value) \<Rightarrow>
          if existing_value \<noteq> val
          then output(key \<mapsto> ListOfConflicts [existing_value, val])
          else output)"

text \<open>The \<^verbatim>\<open>for tile_metadata in tile_metadata_list\<close> loop, with \<^verbatim>\<open>result\<close> as its state.\<close>

fun merge_loop ::
  "schema_util \<Rightarrow> int \<Rightarrow> tile_metadata list \<Rightarrow> merged_metadata \<Rightarrow> error + merged_metadata" where
  "merge_loop su rm [] result = Inr result"
| "merge_loop su rm (tile # rest) result =
     (case rewrite_format su tile rm of
        Inl e \<Rightarrow> Inl e
      | Inr fmt \<Rightarrow>
          (case rewrite_schema su tile rm of
             Inl e \<Rightarrow> Inl e
           | Inr sch \<Rightarrow>
               merge_loop su rm rest
                 (merge_metadata_field
                    (merge_metadata_field
                       (merge_metadata_field result ''format.json'' fmt)
                       ''schema.json'' sch)
                    ''crs.wkt'' (crs_wkt tile))))"

definition rewrite_and_merge_metadata ::
  "schema_util \<Rightarrow> tile_metadata list \<Rightarrow> int \<Rightarrow> error + merged_metadata" where
  "rewrite_and_merge_metadata su tile_metadata_list rewrite_metadata =
     merge_loop su rewrite_metadata tile_metadata_list Map.empty"

text \<open>
  The field-merge rule in the order the specification words it: absent key, equal value,
  existing conflict set, scalar replaced by a two-element conflict set.
\<close>

definition field_merge_rule ::
  "(string \<Rightarrow> 'v field option) \<Rightarrow> string \<Rightarrow> 'v \<Rightarrow> (string \<Rightarrow> 'v field option)" where
  "field_merge_rule acc key val =
     (if acc key = None then acc(key \<mapsto> Resolved val)
      else if acc key = Some (Resolved val) then acc
      else (case the (acc key) of
              ListOfConflicts cs \<Rightarrow>
                if val \<in> set cs then acc else acc(key \<mapsto> ListOfConflicts (cs @ [val]))
            | Resolved old \<Rightarrow> acc(key \<mapsto> ListOfConflicts [old, val])))"

text \<open>
  Vocabulary for the properties of the merge: the values a field holds, whether it is a
  conflict set, the distinct values of a sequence in first-seen order, the field that holds a
  given list of distinct values, and the value each tile contributes to each merged key.
\<close>

fun field_values :: "'v field option \<Rightarrow> 'v list" where
  "field_values None = []"
| "field_values (Some (Resolved v)) = [v]"
| "field_values (Some (ListOfConflicts vs)) = vs"

fun is_conflicted :: "'v field option \<Rightarrow> bool" where
  "is_conflicted (Some (ListOfConflicts vs)) = True"
| "is_conflicted _ = False"

definition add_distinct :: "'v list \<Rightarrow> 'v \<Rightarrow> 'v list" where
  "add_distinct vs v = (if v \<in> set vs then vs else vs @ [v])"

definition first_seen :: "'v list \<Rightarrow> 'v list" where
  "first_seen vs = foldl add_distinct [] vs"

fun as_field :: "'v list \<Rightarrow> 'v field option" where
  "as_field [] = None"
| "as_field [v] = Some (Resolved v)"
| "as_field vs = Some (ListOfConflicts vs)"

definition field_ok :: "'v field option \<Rightarrow> bool" where
  "field_ok fo \<longleftrightarrow> distinct (field_values fo) \<and> as_field (field_values fo) = fo"

definition merged_keys :: "string set" where
  "merged_keys = {''format.json'', ''schema.json'', ''crs.wkt''}"

definition incoming :: "schema_util \<Rightarrow> int \<Rightarrow> string \<Rightarrow> tile_metadata \<Rightarrow> error + pyval" where
  "incoming su rm key tile =
     (if key = ''format.json'' then rewrite_format su tile rm
      else if key = ''schema.json'' then rewrite_schema su tile rm
      else Inr (crs_wkt tile))"

text \<open>The three merges of one pass of the loop body.\<close>

definition merge_tile :: "merged_metadata \<Rightarrow> pyval \<Rightarrow> pyval \<Rightarrow> pyval \<Rightarrow> merged_metadata" where
  "merge_tile result fmt sch crs =
     merge_metadata_field
       (merge_metadata_field (merge_metadata_field result ''format.json'' fmt) ''schema.json'' sch)
       ''crs.wkt'' crs"

text \<open>Concrete data for evaluating the model.\<close>

definition example_schema_util :: schema_util where
  "example_schema_util =
     \<lparr>equivalent_copc_pdrf = (\<lambda>p. if p = PInt 3 then Inr (PInt 7) else Inr p),
      get_record_length_from_pdrf = (\<lambda>p. if p = PInt 7 then Inr (PInt 36) else Inr (PInt 30)),
      get_schema_from_pdrf = (\<lambda>p. Inr (PList [p]))\<rparr>"

definition example_tile :: "string \<Rightarrow> tile_metadata" where
  "example_tile crs =
     \<lparr>format_json = [''compression'' \<mapsto> PStr ''las'', ''lasVersion'' \<mapsto> PStr ''1.2'',
                      ''optimization'' \<mapsto> PNone, ''optimizationVersion'' \<mapsto> PNone,
                      ''pointDataRecordFormat'' \<mapsto> PInt 3, ''pointDataRecordLength'' \<mapsto> PInt 34],
      schema_json = PList [PStr ''X'', PStr ''Y'', PStr ''Z''],
      crs_wkt = PStr crs\<rparr>"

section \<open>kart/point_cloud/metadata_util.py: the format summary and its inverse helpers\<close>

text \<open>
  Subscripting a Python value with a string key (TypeError on anything but a dictionary),
  truthiness, and \<^verbatim>\<open>str()\<close> as an f-string applies it. The text of a list or a dictionary
  depends on insertion order, which a map does not record, so it is a parameter of the model.
\<close>

fun subscript :: "pyval \<Rightarrow> string \<Rightarrow> error + pyval" where
  "subscript (PDict d) k = getitem d k"
| "subscript _ k = Inl TypeError"

fun truthy :: "pyval \<Rightarrow> bool" where
  "truthy PNone = False"
| "truthy (PInt i) = (i \<noteq> 0)"
| "truthy (PStr s) = (s \<noteq> [])"
| "truthy (PList xs) = (xs \<noteq> [])"
| "truthy (PDict d) = (d \<noteq> Map.empty)"

fun digits_of_nat :: "nat \<Rightarrow> string" where
  "digits_of_nat n =
     (if n < 10 then [''0123456789'' ! n]
      else digits_of_nat (n div 10) @ [''0123456789'' ! (n mod 10)])"

fun py_str :: "(pyval \<Rightarrow> string) \<Rightarrow> pyval \<Rightarrow> string" where
  "py_str container_repr PNone = ''None''"
| "py_str container_repr (PInt i) =
     (if i < 0 then CHR ''-'' # digits_of_nat (nat (- i)) else digits_of_nat (nat i))"
| "py_str container_repr (PStr s) = s"
| "py_str container_repr v = container_repr v"

text \<open>
  \<^verbatim>\<open>get_format_summary\<close>: the argument is a dictionary; when it has the key
  \<^verbatim>\<open>"format.json"\<close> the value under that key is used instead.
\<close>

definition get_format_summary :: "(pyval \<Rightarrow> string) \<Rightarrow> pydict \<Rightarrow> error + string" where
  "get_format_summary container_repr format_info0 =
     (let format_info =
            (case format_info0 ''format.json'' of
               Some inner \<Rightarrow> inner
             | None \<Rightarrow> PDict format_info0)
      in case subscript format_info ''compression'' of
           Inl e \<Rightarrow> Inl e
         | Inr compression \<Rightarrow>
       (case subscript format_info ''lasVersion'' of
           Inl e \<Rightarrow> Inl e
         | Inr las_version \<Rightarrow>
       (let format_summary =
              py_str container_repr compression @ ''-'' @ py_str container_repr las_version
        in case subscript format_info ''optimization'' of
             Inl e \<Rightarrow> Inl e
           | Inr optimization \<Rightarrow>
               if truthy optimization then
                 (case subscript format_info ''optimizationVersion'' of
                    Inl e \<Rightarrow> Inl e
                  | Inr optimization_version \<Rightarrow>
                      Inr (format_summary @ ''/'' @ py_str container_repr optimization
                             @ ''-'' @ py_str container_repr optimization_version))
               else Inr format_summary)))"

text \<open>
  \<^verbatim>\<open>sub in s\<close> on strings, and \<^verbatim>\<open>re.match(r"la[sz]-([0-9\.]+)", s, re.IGNORECASE)\<close>: the match is
  anchored at the start, the group is the longest run of digits and dots after the hyphen
  and must not be empty; what follows the run is not examined. The result is group 1.
\<close>

fun contains :: "string \<Rightarrow> string \<Rightarrow> bool" where
  "contains [] sub = (sub = [])"
| "contains (c # cs) sub = (startswith (c # cs) sub \<or> contains cs sub)"

definition digit_or_dot :: "char \<Rightarrow> bool" where
  "digit_or_dot c \<longleftrightarrow> c \<in> set ''0123456789.''"

definition las_version_match :: "string \<Rightarrow> string option" where
  "las_version_match s =
     (case s of
        c1 # c2 # c3 # c4 # rest \<Rightarrow>
          if c1 \<in> set ''lL'' \<and> c2 \<in> set ''aA'' \<and> c3 \<in> set ''sSzZ'' \<and> c4 = CHR ''-''
             \<and> takeWhile digit_or_dot rest \<noteq> []
          then Some (takeWhile digit_or_dot rest)
          else None
      | _ \<Rightarrow> None)"

definition extract_format :: "pyval \<Rightarrow> pyval" where
  "extract_format tile_format =
     (case tile_format of
        PDict d \<Rightarrow>
          (case d ''format.json'' of
             Some v \<Rightarrow> v
           | None \<Rightarrow> (case d ''format'' of Some v \<Rightarrow> v | None \<Rightarrow> tile_format))
      | _ \<Rightarrow> tile_format)"

definition is_copc :: "pyval \<Rightarrow> error + bool" where
  "is_copc tile_format =
     (case extract_format tile_format of
        PDict d \<Rightarrow> Inr (d ''optimization'' = Some (PStr ''copc''))
      | PStr s \<Rightarrow> Inr (contains s ''copc'')
      | _ \<Rightarrow> Inl (ValueError ''Bad tile format''))"

definition get_las_version :: "pyval \<Rightarrow> error + pyval" where
  "get_las_version tile_format =
     (case extract_format tile_format of
        PDict d \<Rightarrow> Inr (case d ''lasVersion'' of Some v \<Rightarrow> v | None \<Rightarrow> PNone)
      | PStr s \<Rightarrow>
          (case las_version_match s of
             Some g \<Rightarrow> Inr (PStr g)
           | None \<Rightarrow> Inl (ValueError ''Bad tile format''))
      | _ \<Rightarrow> Inl (ValueError ''Bad tile format''))"

text \<open>
  A valid format descriptor, as \<^verbatim>\<open>extract_pc_tile_metadata\<close> and \<^verbatim>\<open>rewrite_format\<close> write it (and a
  little wider): compression is las or laz, lasVersion is a non-empty string of digits and
  dots, optimization is \<^verbatim>\<open>None\<close> or the string copc, and in the latter case an
  optimizationVersion is present.
\<close>

definition valid_format :: "pydict \<Rightarrow> bool" where
  "valid_format f \<longleftrightarrow>
     f ''format.json'' = None
     \<and> (f ''compression'' = Some (PStr ''las'') \<or> f ''compression'' = Some (PStr ''laz''))
     \<and> (case f ''lasVersion'' of
          Some (PStr v) \<Rightarrow> v \<noteq> [] \<and> list_all digit_or_dot v
        | _ \<Rightarrow> False)
     \<and> (f ''optimization'' = Some PNone
        \<or> (f ''optimization'' = Some (PStr ''copc'') \<and> f ''optimizationVersion'' \<noteq> None))"

text \<open>
  The pattern of a summary string in the specification's words,
  \<^verbatim>\<open><compression>-<version>[/<optimization>-<optimizationVersion>]\<close>: one or two parts
  separated by a slash, each made of two non-empty tokens separated by a hyphen.
\<close>

fun split_on :: "char \<Rightarrow> string \<Rightarrow> string list" where
  "split_on sep [] = [[]]"
| "split_on sep (c # cs) =
     (if c = sep then [] # split_on sep cs
      else (case split_on sep cs of
              t # ts \<Rightarrow> (c # t) # ts
            | [] \<Rightarrow> [[c]]))"

definition two_tokens :: "string \<Rightarrow> bool" where
  "two_tokens part \<longleftrightarrow>
     (case split_on (CHR ''-'') part of
        [name, version] \<Rightarrow> name \<noteq> [] \<and> version \<noteq> []
      | _ \<Rightarrow> False)"

definition matches_summary_pattern :: "string \<Rightarrow> bool" where
  "matches_summary_pattern s \<longleftrightarrow>
     (case split_on (CHR ''/'') s of
        [container] \<Rightarrow> two_tokens container
      | [container, optimization] \<Rightarrow> two_tokens container \<and> two_tokens optimization
      | _ \<Rightarrow> False)"

text \<open>The strings on which the regular expression of \<^verbatim>\<open>get_las_version\<close> matches.\<close>

definition las_prefix :: "string \<Rightarrow> bool" where
  "las_prefix s \<longleftrightarrow>
     (case s of
        c1 # c2 # c3 # c4 # d # _ \<Rightarrow>
          c1 \<in> set ''lL'' \<and> c2 \<in> set ''aA'' \<and> c3 \<in> set ''sSzZ'' \<and> c4 = CHR ''-''
          \<and> digit_or_dot d
      | _ \<Rightarrow> False)"

definition example_format_las :: pydict where
  "example_format_las =
     [''compression'' \<mapsto> PStr ''las'', ''lasVersion'' \<mapsto> PStr ''1.2'',
      ''optimization'' \<mapsto> PNone, ''optimizationVersion'' \<mapsto> PNone,
      ''pointDataRecordFormat'' \<mapsto> PInt 3, ''pointDataRecordLength'' \<mapsto> PInt 34]"

definition example_format_copc :: pydict where
  "example_format_copc =
     [''compression'' \<mapsto> PStr ''laz'', ''lasVersion'' \<mapsto> PStr ''1.4'',
      ''optimization'' \<mapsto> PStr ''copc'', ''optimizationVersion'' \<mapsto> PStr ''1.0'',
      ''pointDataRecordFormat'' \<mapsto> PInt 7, ''pointDataRecordLength'' \<mapsto> PInt 36]"

section \<open>sno/working_copy/mysql.py: the capture triggers\<close>

text \<open>
  The part of a dataset the trigger code reads, and the part of the database session it
  acts on: the triggers that exist and the rows of the tracking table \<^verbatim>\<open>SNO_TRACK\<close>, whose
  columns are \<^verbatim>\<open>(table_name, pk)\<close>. A trigger is what its \<^verbatim>\<open>CREATE TRIGGER\<close> statement says: its
  name, its event, its table, and the rows it puts into the tracking table with
  \<^verbatim>\<open>REPLACE INTO\<close>, each the literal table name and the OLD or NEW value of the key column.
  Identifier quoting and the schema prefix are left out of names.
\<close>

record dataset =
  table_name :: string
  primary_key :: string

datatype trigger_event = AfterInsert | AfterUpdate | AfterDelete

datatype row_ref = OLD | NEW

record trigger =
  trigger_name :: string
  trigger_event :: trigger_event
  trigger_table :: string
  trigger_column :: string
  trigger_values :: "(string \<times> row_ref) list"

record 'pk session =
  triggers :: "trigger list"
  sno_track :: "(string \<times> 'pk) list"

datatype statement = CreateTrigger trigger | DropTrigger string

type_synonym 'pk outcome = "'pk session \<times> error option"

text \<open>
  \<^verbatim>\<open>sess.execute\<close> on the two statements the code issues. The server refuses to create a
  trigger whose name exists and to drop one that does not; the session is returned together
  with the exception raised, if any, since a statement that fails leaves the earlier ones
  done.
\<close>

definition execute :: "statement \<Rightarrow> 'pk session \<Rightarrow> 'pk outcome" where
  "execute stmt sess =
     (case stmt of
        CreateTrigger t \<Rightarrow>
          if trigger_name t \<in> trigger_name ` set (triggers sess)
          then (sess, Some (DatabaseError ''Trigger already exists''))
          else (sess\<lparr>triggers := triggers sess @ [t]\<rparr>, None)
      | DropTrigger n \<Rightarrow>
          if n \<notin> trigger_name ` set (triggers sess)
          then (sess, Some (DatabaseError ''Trigger does not exist''))
          else (sess\<lparr>triggers := filter (\<lambda>t. trigger_name t \<noteq> n) (triggers sess)\<rparr>, None))"

definition and_then ::
  "('pk session \<Rightarrow> 'pk outcome) \<Rightarrow> ('pk session \<Rightarrow> 'pk outcome) \<Rightarrow> 'pk session \<Rightarrow> 'pk outcome" where
  "and_then first second sess =
     (case first sess of
        (sess', None) \<Rightarrow> second sess'
      | (sess', Some e) \<Rightarrow> (sess', Some e))"

text \<open>\<^verbatim>\<open>_quoted_trigger_name\<close>, \<^verbatim>\<open>table_identifier\<close> and the three statements of \<^verbatim>\<open>_create_triggers\<close>.\<close>

definition quoted_trigger_name :: "dataset \<Rightarrow> string \<Rightarrow> string" where
  "quoted_trigger_name ds trigger_type = ''sno_'' @ table_name ds @ ''_'' @ trigger_type"

definition table_identifier :: "dataset \<Rightarrow> string" where
  "table_identifier ds = table_name ds"

definition create_ins :: "dataset \<Rightarrow> trigger" where
  "create_ins ds =
     \<lparr>trigger_name = quoted_trigger_name ds ''ins'', trigger_event = AfterInsert,
      trigger_table = table_identifier ds,
      trigger_column = primary_key ds,
      trigger_values = [(table_name ds, NEW)]\<rparr>"

definition create_upd :: "dataset \<Rightarrow> trigger" where
  "create_upd ds =
     \<lparr>trigger_name = quoted_trigger_name ds ''upd'', trigger_event = AfterUpdate,
      trigger_table = table_identifier ds,
      trigger_column = primary_key ds,
      trigger_values = [(table_name ds, OLD), (table_name ds, NEW)]\<rparr>"

definition create_del :: "dataset \<Rightarrow> trigger" where
  "create_del ds =
     \<lparr>trigger_name = quoted_trigger_name ds ''del'', trigger_event = AfterDelete,
      trigger_table = table_identifier ds,
      trigger_column = primary_key ds,
      trigger_values = [(table_name ds, OLD)]\<rparr>"

definition create_triggers :: "dataset \<Rightarrow> 'pk session \<Rightarrow> 'pk outcome" where
  "create_triggers ds =
     and_then (execute (CreateTrigger (create_ins ds)))
       (and_then (execute (CreateTrigger (create_upd ds)))
          (execute (CreateTrigger (create_del ds))))"

definition drop_triggers :: "dataset \<Rightarrow> 'pk session \<Rightarrow> 'pk outcome" where
  "drop_triggers ds =
     and_then (execute (DropTrigger (quoted_trigger_name ds ''ins'')))
       (and_then (execute (DropTrigger (quoted_trigger_name ds ''upd'')))
          (execute (DropTrigger (quoted_trigger_name ds ''del''))))"

text \<open>
  \<^verbatim>\<open>_suspend_triggers\<close> is a generator under \<^verbatim>\<open>contextlib.contextmanager\<close>: the code before
  \<^verbatim>\<open>yield\<close> runs on entry, the body of the \<^verbatim>\<open>with\<close> statement runs at the \<^verbatim>\<open>yield\<close>, and the code
  after it runs when the body returns. An exception of the body is thrown into the generator
  at the \<^verbatim>\<open>yield\<close>; as no \<^verbatim>\<open>try\<close> encloses it, it leaves the generator there and
  \<^verbatim>\<open>_create_triggers\<close> is not reached.
\<close>

definition suspend_triggers ::
  "dataset \<Rightarrow> ('pk session \<Rightarrow> 'pk outcome) \<Rightarrow> 'pk session \<Rightarrow> 'pk outcome" where
  "suspend_triggers ds body sess =
     (case drop_triggers ds sess of
        (sess1, Some e) \<Rightarrow> (sess1, Some e)
      | (sess1, None) \<Rightarrow>
          (case body sess1 of
             (sess2, Some e) \<Rightarrow> (sess2, Some e)
           | (sess2, None) \<Rightarrow> create_triggers ds sess2))"

text \<open>
  Modelled from the spec: the tracking table and the server's firing of row triggers are not
  in the source files. A row change on a table carries the key values of the old and new
  row; every trigger of that table and event runs its \<^verbatim>\<open>REPLACE INTO\<close>, which removes an
  existing row with the same \<^verbatim>\<open>(table_name, pk)\<close> and adds the new one
  (replace-on-conflict, not append).
\<close>

datatype 'pk row_event = InsertRow 'pk | UpdateRow 'pk 'pk | DeleteRow 'pk

fun event_kind :: "'pk row_event \<Rightarrow> trigger_event" where
  "event_kind (InsertRow new) = AfterInsert"
| "event_kind (UpdateRow old new) = AfterUpdate"
| "event_kind (DeleteRow old) = AfterDelete"

fun row_value :: "row_ref \<Rightarrow> 'pk row_event \<Rightarrow> 'pk option" where
  "row_value NEW (InsertRow new) = Some new"
| "row_value NEW (UpdateRow old new) = Some new"
| "row_value OLD (UpdateRow old new) = Some old"
| "row_value OLD (DeleteRow old) = Some old"
| "row_value _ _ = None"

definition replace_into :: "(string \<times> 'pk) list \<Rightarrow> string \<times> 'pk \<Rightarrow> (string \<times> 'pk) list" where
  "replace_into track entry = filter (\<lambda>r. r \<noteq> entry) track @ [entry]"

definition run_trigger :: "'pk row_event \<Rightarrow> (string \<times> 'pk) list \<Rightarrow> trigger \<Rightarrow> (string \<times> 'pk) list" where
  "run_trigger ev track t =
     foldl replace_into track
       (List.map_filter (\<lambda>(name, ref). map_option (Pair name) (row_value ref ev)) (trigger_values t))"

definition row_change :: "string \<Rightarrow> 'pk row_event \<Rightarrow> 'pk session \<Rightarrow> 'pk session" where
  "row_change table ev sess =
     sess\<lparr>sno_track :=
       foldl (run_trigger ev) (sno_track sess)
         (filter (\<lambda>t. trigger_table t = table \<and> trigger_event t = event_kind ev) (triggers sess))\<rparr>"

definition tracked :: "dataset \<Rightarrow> 'pk session \<Rightarrow> bool" where
  "tracked ds sess \<longleftrightarrow> triggers sess = [create_ins ds, create_upd ds, create_del ds]"

definition empty_session :: "'pk session" where
  "empty_session = \<lparr>triggers = [], sno_track = []\<rparr>"

definition example_dataset :: dataset where
  "example_dataset = \<lparr>table_name = ''roads'', primary_key = ''fid''\<rparr>"

definition example_tracked :: "int session" where
  "example_tracked =
     \<lparr>triggers = [create_ins example_dataset, create_upd example_dataset, create_del example_dataset],
      sno_track = []\<rparr>"

definition failing_bulk :: "int session \<Rightarrow> int outcome" where
  "failing_bulk sess =
     (row_change ''roads'' (InsertRow 1) sess, Some (DatabaseError ''bulk operation failed''))"

definition bulk_insert :: "int session \<Rightarrow> int outcome" where
  "bulk_insert sess = (row_change ''roads'' (InsertRow 2) (row_change ''roads'' (InsertRow 1) sess), None)"

section \<open>sno/working_copy/mysql.py: hidden meta items and the in-place decision\<close>

text \<open>
  A snapshot of meta items is a Python dictionary from item names to values, kept as an
  association list in insertion order; \<^verbatim>\<open>del d[key]\<close> is \<^const>\<open>AList.delete\<close> and a lookup is
  \<^const>\<open>map_of\<close>.
\<close>

type_synonym 'v meta_items = "(string \<times> 'v) list"

definition UNSUPPORTED_META_ITEMS :: "string list" where
  "UNSUPPORTED_META_ITEMS = [''title'', ''description'', ''metadata/dataset.json'', ''metadata.xml'']"

text \<open>
  The two loops of \<^verbatim>\<open>_remove_hidden_meta_diffs\<close>; both delete from \<^verbatim>\<open>ds_meta_items\<close> only. The
  second iterates over a copy of the keys taken before the loop.
\<close>

definition del_unsupported :: "'v meta_items \<Rightarrow> 'v meta_items" where
  "del_unsupported ds_meta_items =
     foldl (\<lambda>items key. if key \<in> fst ` set items then AList.delete key items else items)
       ds_meta_items UNSUPPORTED_META_ITEMS"

definition del_crs :: "'v meta_items \<Rightarrow> 'v meta_items" where
  "del_crs ds_meta_items =
     foldl (\<lambda>items key. if startswith key ''crs/'' then AList.delete key items else items)
       ds_meta_items (map fst ds_meta_items)"

text \<open>
  \<^verbatim>\<open>_remove_hidden_meta_diffs\<close>. The method of the base class, called first, is not among the
  source files and is a parameter: it takes the two snapshots and returns them as it leaves
  them.
\<close>

definition remove_hidden_meta_diffs ::
  "('v meta_items \<Rightarrow> 'v meta_items \<Rightarrow> 'v meta_items \<times> 'v meta_items) \<Rightarrow>
   'v meta_items \<Rightarrow> 'v meta_items \<Rightarrow> 'v meta_items \<times> 'v meta_items" where
  "remove_hidden_meta_diffs super_remove ds_meta_items wc_meta_items =
     (case super_remove ds_meta_items wc_meta_items of
        (ds1, wc1) \<Rightarrow> (del_crs (del_unsupported ds1), wc1))"

text \<open>
  \<^verbatim>\<open>_is_meta_update_supported\<close> returns \<^verbatim>\<open>not meta_diff\<close>: true exactly when the diff is empty. A
  meta diff is given by the keys it changes.
\<close>

definition is_meta_update_supported :: "string list \<Rightarrow> bool" where
  "is_meta_update_supported meta_diff \<longleftrightarrow> meta_diff = []"

text \<open>
  Modelled from the spec: the key-level diff of two snapshots and the caller that cleans the
  snapshots, diffs them and asks \<^verbatim>\<open>_is_meta_update_supported\<close> are not among the source files.
  The diff is the list of keys, of either snapshot, whose values differ or that are present
  on one side only.
\<close>

definition diff_dicts :: "'v meta_items \<Rightarrow> 'v meta_items \<Rightarrow> string list" where
  "diff_dicts old new =
     filter (\<lambda>k. map_of old k \<noteq> map_of new k) (remdups (map fst old @ map fst new))"

definition meta_update_supported_in_place ::
  "('v meta_items \<Rightarrow> 'v meta_items \<Rightarrow> 'v meta_items \<times> 'v meta_items) \<Rightarrow>
   'v meta_items \<Rightarrow> 'v meta_items \<Rightarrow> bool" where
  "meta_update_supported_in_place super_remove ds_meta_items wc_meta_items =
     (case remove_hidden_meta_diffs super_remove ds_meta_items wc_meta_items of
        (ds', wc') \<Rightarrow> is_meta_update_supported (diff_dicts ds' wc'))"

text \<open>The keys the MySQL working copy hides: the unsupported items and every key under \<^verbatim>\<open>crs/\<close>.\<close>

definition hidden_key :: "string \<Rightarrow> bool" where
  "hidden_key k \<longleftrightarrow> k \<in> set UNSUPPORTED_META_ITEMS \<or> startswith k ''crs/''"

text \<open>
  The removal in the specification's words, applied to one snapshot: every hidden key is
  dropped, every other item is kept.
\<close>

definition without_hidden :: "'v meta_items \<Rightarrow> 'v meta_items" where
  "without_hidden items = filter (\<lambda>(k, v). \<not> hidden_key k) items"

text \<open>
  \<^verbatim>\<open>meta_items\<close>, from which the working-copy snapshot is built, yields one item: the schema
  read back from the database catalog (a parameter here) under the key \<^verbatim>\<open>schema.json\<close>.
\<close>

definition meta_items :: "'v \<Rightarrow> 'v meta_items" where
  "meta_items schema = [(''schema.json'', schema)]"

definition example_ds_meta :: "string meta_items" where
  "example_ds_meta =
     [(''title'', ''Roads''), (''description'', ''All the roads''),
      (''crs/EPSG:4326.wkt'', ''GEOGCS[...]''), (''schema.json'', ''[fid, geom, name]'')]"

section \<open>Properties of the metadata merge\<close>

text \<open>
  Claim C3. For every accumulator, key and incoming value, one step of
  \<^verbatim>\<open>_merge_metadata_field\<close> is the field-merge rule: an absent key gets the value as it is; an
  equal existing value changes nothing; an existing conflict set gets the value appended
  unless it is already present; any other scalar is replaced by the two-element conflict set
  of the old and the new value.
\<close>

theorem merge_metadata_field_rule:
  "merge_metadata_field output key val = field_merge_rule output key val"
  by (auto simp: merge_metadata_field_def field_merge_rule_def split: option.splits field.splits)

subsection \<open>The fold keeps the first-seen distinct values of each key\<close>

lemma field_ok_None [simp]: "field_ok None"
  by (simp add: field_ok_def)

lemma as_field_values: "field_ok fo \<Longrightarrow> as_field (field_values fo) = fo"
  by (simp add: field_ok_def)

lemma merge_other_key: "k \<noteq> key \<Longrightarrow> merge_metadata_field output key v k = output k"
  by (simp add: merge_metadata_field_def split: option.splits field.splits)

lemma merge_same_key:
  assumes "field_ok (output key)"
  shows "merge_metadata_field output key v key = as_field (add_distinct (field_values (output key)) v)"
proof (cases "output key")
  case None
  then show ?thesis by (simp add: merge_metadata_field_def add_distinct_def)
next
  case (Some f)
  show ?thesis
  proof (cases f)
    case (Resolved x)
    with Some show ?thesis
      by (auto simp: merge_metadata_field_def add_distinct_def)
  next
    case (ListOfConflicts xs)
    with Some assms have "as_field xs = Some (ListOfConflicts xs)"
      by (simp add: field_ok_def)
    then obtain a b ys where xs: "xs = a # b # ys"
      by (cases xs rule: as_field.cases) auto
    with Some ListOfConflicts show ?thesis
      by (auto simp: merge_metadata_field_def add_distinct_def)
  qed
qed

lemma distinct_add_distinct: "distinct vs \<Longrightarrow> distinct (add_distinct vs v)"
  by (simp add: add_distinct_def)

lemma set_add_distinct: "set (add_distinct vs v) = insert v (set vs)"
  by (auto simp: add_distinct_def)

lemma field_values_as_field [simp]: "field_values (as_field vs) = vs"
  by (cases vs rule: as_field.cases) simp_all

lemma field_ok_as_field: "distinct vs \<Longrightarrow> field_ok (as_field vs)"
  by (simp add: field_ok_def)

lemma merge_field_ok:
  assumes "field_ok (output k)"
  shows "field_ok (merge_metadata_field output key v k)"
proof (cases "k = key")
  case True
  with assms show ?thesis
    by (simp add: merge_same_key field_ok_as_field distinct_add_distinct field_ok_def)
next
  case False
  with assms show ?thesis by (simp add: merge_other_key)
qed

lemma distinct_foldl_add: "distinct acc \<Longrightarrow> distinct (foldl add_distinct acc vs)"
  by (induction vs arbitrary: acc) (simp_all add: distinct_add_distinct)

lemma set_foldl_add: "set (foldl add_distinct acc vs) = set acc \<union> set vs"
  by (induction vs arbitrary: acc) (auto simp: set_add_distinct)

lemma distinct_first_seen: "distinct (first_seen vs)"
  by (simp add: first_seen_def distinct_foldl_add)

lemma set_first_seen: "set (first_seen vs) = set vs"
  by (simp add: first_seen_def set_foldl_add)

lemma merge_tile_outside: "k \<notin> merged_keys \<Longrightarrow> merge_tile result fmt sch crs k = result k"
  by (simp add: merge_tile_def merged_keys_def merge_other_key)

lemma merge_tile_field_ok: "field_ok (result k) \<Longrightarrow> field_ok (merge_tile result fmt sch crs k)"
  by (simp add: merge_tile_def merge_field_ok)

lemma merge_tile_inside:
  assumes "k \<in> merged_keys" "field_ok (result k)"
  shows "merge_tile result fmt sch crs k =
           as_field (add_distinct (field_values (result k))
             (if k = ''format.json'' then fmt else if k = ''schema.json'' then sch else crs))"
proof -
  consider "k = ''format.json''" | "k = ''schema.json''" | "k = ''crs.wkt''"
    using assms(1) by (auto simp: merged_keys_def)
  then show ?thesis
  proof cases
    case 1
    then show ?thesis
      using assms(2) by (simp add: merge_tile_def merge_other_key merge_same_key)
  next
    case 2
    then show ?thesis
      using assms(2) by (simp add: merge_tile_def merge_other_key merge_same_key)
  next
    case 3
    then show ?thesis
      using assms(2) by (simp add: merge_tile_def merge_other_key merge_same_key)
  qed
qed

lemma merge_loop_outside:
  "merge_loop su rm tiles result = Inr r \<Longrightarrow> k \<notin> merged_keys \<Longrightarrow> r k = result k"
proof (induction tiles arbitrary: result)
  case Nil
  then show ?case by simp
next
  case (Cons tile rest)
  from Cons.prems(1) obtain fmt sch where
    f: "rewrite_format su tile rm = Inr fmt" and s: "rewrite_schema su tile rm = Inr sch"
    and l: "merge_loop su rm rest (merge_tile result fmt sch (crs_wkt tile)) = Inr r"
    by (auto simp: merge_tile_def split: sum.splits)
  from Cons.IH [OF l Cons.prems(2)] show ?case
    using Cons.prems(2) by (simp add: merge_tile_outside)
qed

lemma merge_loop_inside:
  "merge_loop su rm tiles result = Inr r \<Longrightarrow> k \<in> merged_keys \<Longrightarrow> field_ok (result k) \<Longrightarrow>
   \<exists>vs. map (incoming su rm k) tiles = map Inr vs
        \<and> r k = as_field (foldl add_distinct (field_values (result k)) vs)"
proof (induction tiles arbitrary: result)
  case Nil
  then show ?case by (simp add: as_field_values)
next
  case (Cons tile rest)
  from Cons.prems(1) obtain fmt sch where
    f: "rewrite_format su tile rm = Inr fmt" and s: "rewrite_schema su tile rm = Inr sch"
    and l: "merge_loop su rm rest (merge_tile result fmt sch (crs_wkt tile)) = Inr r"
    by (auto simp: merge_tile_def split: sum.splits)
  let ?v = "if k = ''format.json'' then fmt else if k = ''schema.json'' then sch else crs_wkt tile"
  have inc: "incoming su rm k tile = Inr ?v"
    using f s by (simp add: incoming_def)
  have step: "merge_tile result fmt sch (crs_wkt tile) k =
                as_field (add_distinct (field_values (result k)) ?v)"
    using Cons.prems(2,3) by (rule merge_tile_inside)
  have ok: "field_ok (merge_tile result fmt sch (crs_wkt tile) k)"
    using Cons.prems(3) by (rule merge_tile_field_ok)
  from Cons.IH [OF l Cons.prems(2) ok] obtain vs where
    vs: "map (incoming su rm k) rest = map Inr vs"
    and r: "r k = as_field (foldl add_distinct
              (field_values (merge_tile result fmt sch (crs_wkt tile) k)) vs)"
    by blast
  have "map (incoming su rm k) (tile # rest) = map Inr (?v # vs)"
    using inc vs by simp
  moreover have "r k = as_field (foldl add_distinct (field_values (result k)) (?v # vs))"
    using r step by simp
  ultimately show ?case by blast
qed

lemma merge_loop_succeeds:
  "(\<exists>r. merge_loop su rm tiles result = Inr r) \<longleftrightarrow>
   (\<forall>t \<in> set tiles. (\<exists>f. rewrite_format su t rm = Inr f) \<and> (\<exists>s. rewrite_schema su t rm = Inr s))"
proof (induction tiles arbitrary: result)
  case Nil
  then show ?case by simp
next
  case (Cons tile rest)
  show ?case
  proof (cases "rewrite_format su tile rm")
    case (Inl e)
    then show ?thesis by simp
  next
    case f: (Inr fmt)
    show ?thesis
    proof (cases "rewrite_schema su tile rm")
      case (Inl e)
      with f show ?thesis by simp
    next
      case (Inr sch)
      with f Cons.IH show ?thesis by simp
    qed
  qed
qed

lemma rewrite_and_merge_field:
  assumes "rewrite_and_merge_metadata su tiles rm = Inr r" "k \<in> merged_keys"
  shows "\<exists>vs. map (incoming su rm k) tiles = map Inr vs \<and> r k = as_field (first_seen vs)"
  using merge_loop_inside [of su rm tiles Map.empty r k] assms
  by (simp add: rewrite_and_merge_metadata_def first_seen_def)

lemma rewrite_and_merge_other:
  assumes "rewrite_and_merge_metadata su tiles rm = Inr r" "k \<notin> merged_keys"
  shows "r k = None"
  using merge_loop_outside [of su rm tiles Map.empty r k] assms
  by (simp add: rewrite_and_merge_metadata_def)

lemma is_conflicted_as_field: "is_conflicted (as_field vs) \<longleftrightarrow> 2 \<le> length vs"
  by (cases vs rule: as_field.cases) simp_all

lemma as_field_None_iff: "as_field vs = None \<longleftrightarrow> vs = []"
  by (cases vs rule: as_field.cases) simp_all

lemma as_field_conflicts: "as_field vs = Some (ListOfConflicts xs) \<Longrightarrow> xs = vs \<and> 2 \<le> length vs"
  by (cases vs rule: as_field.cases) auto

lemma first_seen_constant:
  assumes "vs \<noteq> []" "\<forall>x \<in> set vs. x = v"
  shows "first_seen vs = [v]"
proof -
  have "set (first_seen vs) = {v}"
    using assms by (cases vs) (auto simp: set_first_seen)
  moreover have "distinct (first_seen vs)"
    by (rule distinct_first_seen)
  ultimately show ?thesis
  proof (cases "first_seen vs")
    case Nil
    then show ?thesis using \<open>set (first_seen vs) = {v}\<close> by simp
  next
    case (Cons a ys)
    with \<open>set (first_seen vs) = {v}\<close> \<open>distinct (first_seen vs)\<close>
    have "a = v" "set ys \<subseteq> {v}" "v \<notin> set ys" by auto
    then have "ys = []" by (cases ys) auto
    with Cons \<open>a = v\<close> show ?thesis by simp
  qed
qed

text \<open>
  Claim C4. In the result of \<^verbatim>\<open>rewrite_and_merge_metadata\<close> no conflict set holds two equal
  values (and each holds at least two); a merged key whose incoming values are all the same
  value is stored as that scalar; and with three tiles, where the third contributes a value
  already among the two distinct values of the first two, the conflict set is exactly those two.
\<close>

theorem merged_conflict_sets_distinct:
  assumes "rewrite_and_merge_metadata su tiles rm = Inr result"
  shows "(\<forall>k vs. result k = Some (ListOfConflicts vs) \<longrightarrow> distinct vs \<and> 2 \<le> length vs)
       \<and> (\<forall>k \<in> merged_keys. \<forall>v. tiles \<noteq> [] \<and> (\<forall>t \<in> set tiles. incoming su rm k t = Inr v)
             \<longrightarrow> result k = Some (Resolved v))
       \<and> (\<forall>k \<in> merged_keys. \<forall>t1 t2 t3 a b c.
             tiles = [t1, t2, t3] \<and> incoming su rm k t1 = Inr a \<and> incoming su rm k t2 = Inr b
             \<and> a \<noteq> b \<and> incoming su rm k t3 = Inr c \<and> c \<in> {a, b}
             \<longrightarrow> result k = Some (ListOfConflicts [a, b]))"
proof (intro conjI allI ballI impI)
  fix k vs
  assume c: "result k = Some (ListOfConflicts vs)"
  then have "k \<in> merged_keys"
    using rewrite_and_merge_other [OF assms, of k] by auto
  from rewrite_and_merge_field [OF assms this] obtain ws where
    "result k = as_field (first_seen ws)" by blast
  with c have "vs = first_seen ws \<and> 2 \<le> length (first_seen ws)"
    using as_field_conflicts [of "first_seen ws" vs] by simp
  then show "distinct vs" "2 \<le> length vs"
    by (simp_all add: distinct_first_seen)
next
  fix k v
  assume k: "k \<in> merged_keys"
    and h: "tiles \<noteq> [] \<and> (\<forall>t \<in> set tiles. incoming su rm k t = Inr v)"
  from rewrite_and_merge_field [OF assms k] obtain ws where
    ws: "map (incoming su rm k) tiles = map Inr ws" and r: "result k = as_field (first_seen ws)"
    by blast
  from ws have len: "length ws = length tiles"
    by (metis length_map)
  have "\<forall>x \<in> set ws. x = v"
  proof
    fix x assume "x \<in> set ws"
    then obtain i where i: "i < length ws" "ws ! i = x"
      by (auto simp: in_set_conv_nth)
    with len have "incoming su rm k (tiles ! i) = Inr x"
      using ws by (metis nth_map length_map)
    moreover have "tiles ! i \<in> set tiles"
      using i len by simp
    ultimately show "x = v" using h by auto
  qed
  moreover have "ws \<noteq> []" using h len by auto
  ultimately have "first_seen ws = [v]" by (rule first_seen_constant [rotated])
  with r show "result k = Some (Resolved v)" by simp
next
  fix k t1 t2 t3 a b c
  assume k: "k \<in> merged_keys"
    and h: "tiles = [t1, t2, t3] \<and> incoming su rm k t1 = Inr a \<and> incoming su rm k t2 = Inr b
             \<and> a \<noteq> b \<and> incoming su rm k t3 = Inr c \<and> c \<in> {a, b}"
  from rewrite_and_merge_field [OF assms k] obtain ws where
    ws: "map (incoming su rm k) tiles = map Inr ws" and r: "result k = as_field (first_seen ws)"
    by blast
  from ws h have "map Inr ws = [Inr a, Inr b, Inr c :: error + pyval]"
    by simp
  then have "ws = [a, b, c]"
    by (auto simp: map_eq_Cons_conv)
  with h have "first_seen ws = [a, b]"
    by (auto simp: first_seen_def add_distinct_def)
  with r show "result k = Some (ListOfConflicts [a, b])" by simp
qed

lemma incoming_values_perm:
  assumes "mset tiles = mset tiles'"
    and "map (incoming su rm k) tiles = map Inr vs"
    and "map (incoming su rm k) tiles' = map Inr vs'"
  shows "set vs = set vs'"
proof -
  have "set tiles = set tiles'"
    using assms(1) by (rule mset_eq_setD)
  then have "set (map (incoming su rm k) tiles) = set (map (incoming su rm k) tiles')"
    by simp
  then have "set (map Inr vs) = (set (map Inr vs') :: (error + pyval) set)"
    by (simp only: assms(2,3))
  then have "Inr ` set vs = (Inr ` set vs' :: (error + pyval) set)"
    by simp
  moreover have "inj (Inr :: pyval \<Rightarrow> error + pyval)"
    by (simp add: inj_def)
  ultimately show ?thesis
    by (simp only: inj_image_eq_iff)
qed

text \<open>
  Claim C5. If \<^verbatim>\<open>rewrite_and_merge_metadata\<close> returns on a list of tiles, it returns on every
  permutation of it, and for every key the two results agree on being a conflict set or not,
  on being absent or not, and on the set of values held; only the order inside a conflict set
  may differ.
\<close>

theorem merge_order_independent:
  assumes "mset tiles = mset tiles'"
    and "rewrite_and_merge_metadata su tiles rm = Inr r"
  shows "\<exists>r'. rewrite_and_merge_metadata su tiles' rm = Inr r'
           \<and> (\<forall>k. is_conflicted (r' k) = is_conflicted (r k)
                  \<and> set (field_values (r' k)) = set (field_values (r k))
                  \<and> (r' k = None \<longleftrightarrow> r k = None))"
proof -
  have "\<exists>x. merge_loop su rm tiles Map.empty = Inr x"
    using assms(2) by (auto simp: rewrite_and_merge_metadata_def)
  then have "\<forall>t \<in> set tiles. (\<exists>f. rewrite_format su t rm = Inr f) \<and> (\<exists>s. rewrite_schema su t rm = Inr s)"
    by (simp only: merge_loop_succeeds)
  moreover have "set tiles = set tiles'"
    using assms(1) by (rule mset_eq_setD)
  ultimately have "\<exists>x. merge_loop su rm tiles' Map.empty = Inr x"
    by (simp only: merge_loop_succeeds)
  then obtain r' where r': "rewrite_and_merge_metadata su tiles' rm = Inr r'"
    by (auto simp: rewrite_and_merge_metadata_def)
  have "is_conflicted (r' k) = is_conflicted (r k)
          \<and> set (field_values (r' k)) = set (field_values (r k))
          \<and> (r' k = None \<longleftrightarrow> r k = None)" for k
  proof (cases "k \<in> merged_keys")
    case False
    then show ?thesis
      using rewrite_and_merge_other [OF assms(2)] rewrite_and_merge_other [OF r'] by simp
  next
    case True
    from rewrite_and_merge_field [OF assms(2) True] obtain vs where
      vs: "map (incoming su rm k) tiles = map Inr vs" and rk: "r k = as_field (first_seen vs)"
      by blast
    from rewrite_and_merge_field [OF r' True] obtain vs' where
      vs': "map (incoming su rm k) tiles' = map Inr vs'" and rk': "r' k = as_field (first_seen vs')"
      by blast
    have s: "set (first_seen vs') = set (first_seen vs)"
      using incoming_values_perm [OF assms(1) vs vs'] by (simp add: set_first_seen)
    then have "card (set (first_seen vs')) = card (set (first_seen vs))"
      by simp
    then have l: "length (first_seen vs') = length (first_seen vs)"
      by (simp add: distinct_card distinct_first_seen)
    then have "first_seen vs' = [] \<longleftrightarrow> first_seen vs = []"
      by (metis length_0_conv)
    with s l rk rk' show ?thesis
      by (simp add: is_conflicted_as_field as_field_None_iff)
  qed
  with r' show ?thesis by blast
qed

subsection \<open>Rewriting one tile\<close>

text \<open>
  Claim C8. Whenever the policy contains \<^verbatim>\<open>DROP_FORMAT\<close>, \<^verbatim>\<open>rewrite_format\<close> returns the empty
  dictionary, and whenever it contains \<^verbatim>\<open>DROP_SCHEMA\<close>, \<^verbatim>\<open>rewrite_schema\<close> returns the empty
  dictionary, whatever other flags (such as \<^verbatim>\<open>AS_IF_CONVERTED_TO_COPC\<close>) are set.
\<close>

theorem drop_flags_win:
  "(flag_in DROP_FORMAT rm \<longrightarrow> rewrite_format su tile rm = Inr (PDict Map.empty))
   \<and> (flag_in DROP_SCHEMA rm \<longrightarrow> rewrite_schema su tile rm = Inr (PDict Map.empty))"
  by (simp add: rewrite_format_def rewrite_schema_def)

subsection \<open>The merge on concrete tiles\<close>

lemma flags_simps:
  "flag_in DROP_FORMAT NO_REWRITE = False"
  "flag_in DROP_OPTIMIZATION NO_REWRITE = False"
  "flag_in AS_IF_CONVERTED_TO_COPC NO_REWRITE = False"
  "flag_in DROP_SCHEMA NO_REWRITE = False"
  by (simp_all add: flag_in_def DROP_FORMAT_def DROP_OPTIMIZATION_def
      AS_IF_CONVERTED_TO_COPC_def DROP_SCHEMA_def NO_REWRITE_def)

lemma incoming_no_rewrite:
  "incoming su NO_REWRITE ''format.json'' t = Inr (PDict (format_json t))"
  "incoming su NO_REWRITE ''schema.json'' t = Inr (schema_json t)"
  "incoming su NO_REWRITE ''crs.wkt'' t = Inr (crs_wkt t)"
  by (simp_all add: incoming_def rewrite_format_def rewrite_schema_def flags_simps)

theorem merged_conflict_sets_distinct_witness:
  "\<exists>result.
     rewrite_and_merge_metadata example_schema_util
       [example_tile ''EPSG:2193'', example_tile ''EPSG:4326'', example_tile ''EPSG:4326'']
       NO_REWRITE = Inr result
     \<and> result ''crs.wkt'' = Some (ListOfConflicts [PStr ''EPSG:2193'', PStr ''EPSG:4326''])
     \<and> result ''format.json'' = Some (Resolved (PDict (format_json (example_tile ''EPSG:2193''))))"
proof -
  let ?tiles = "[example_tile ''EPSG:2193'', example_tile ''EPSG:4326'', example_tile ''EPSG:4326'']"
  have "\<forall>t \<in> set ?tiles. (\<exists>f. rewrite_format example_schema_util t NO_REWRITE = Inr f)
          \<and> (\<exists>s. rewrite_schema example_schema_util t NO_REWRITE = Inr s)"
    by (simp add: rewrite_format_def rewrite_schema_def flags_simps)
  then have "\<exists>r. merge_loop example_schema_util NO_REWRITE ?tiles Map.empty = Inr r"
    by (simp only: merge_loop_succeeds)
  then obtain result where
    r: "rewrite_and_merge_metadata example_schema_util ?tiles NO_REWRITE = Inr result"
    by (auto simp: rewrite_and_merge_metadata_def)
  note inst = merged_conflict_sets_distinct [OF r]
  have crs: "result ''crs.wkt'' = Some (ListOfConflicts [PStr ''EPSG:2193'', PStr ''EPSG:4326''])"
    using inst
    by (simp add: merged_keys_def incoming_no_rewrite example_tile_def)
  have fmt: "result ''format.json'' = Some (Resolved (PDict (format_json (example_tile ''EPSG:2193''))))"
    using inst
    by (simp add: merged_keys_def incoming_no_rewrite example_tile_def)
  from r crs fmt show ?thesis by blast
qed

theorem merge_order_independent_witness:
  "\<exists>r r'.
     rewrite_and_merge_metadata example_schema_util
       [example_tile ''EPSG:2193'', example_tile ''EPSG:4326''] NO_REWRITE = Inr r
     \<and> rewrite_and_merge_metadata example_schema_util
       [example_tile ''EPSG:4326'', example_tile ''EPSG:2193''] NO_REWRITE = Inr r'
     \<and> is_conflicted (r' ''crs.wkt'') = is_conflicted (r ''crs.wkt'')
     \<and> set (field_values (r' ''crs.wkt'')) = set (field_values (r ''crs.wkt''))"
proof -
  let ?tiles = "[example_tile ''EPSG:2193'', example_tile ''EPSG:4326'']"
  let ?tiles' = "[example_tile ''EPSG:4326'', example_tile ''EPSG:2193'']"
  have "\<forall>t \<in> set ?tiles. (\<exists>f. rewrite_format example_schema_util t NO_REWRITE = Inr f)
          \<and> (\<exists>s. rewrite_schema example_schema_util t NO_REWRITE = Inr s)"
    by (simp add: rewrite_format_def rewrite_schema_def flags_simps)
  then have "\<exists>r. merge_loop example_schema_util NO_REWRITE ?tiles Map.empty = Inr r"
    by (simp only: merge_loop_succeeds)
  then obtain r where
    r: "rewrite_and_merge_metadata example_schema_util ?tiles NO_REWRITE = Inr r"
    by (auto simp: rewrite_and_merge_metadata_def)
  have m: "mset ?tiles = mset ?tiles'"
    by (simp add: add_mset_commute)
  from merge_order_independent [OF m r] r show ?thesis
    by blast
qed

theorem drop_flags_win_witness:
  "flag_in DROP_FORMAT 13 \<and> flag_in DROP_SCHEMA 13 \<and> flag_in AS_IF_CONVERTED_TO_COPC 13
   \<and> rewrite_format example_schema_util (example_tile ''EPSG:2193'') 13 = Inr (PDict Map.empty)
   \<and> rewrite_schema example_schema_util (example_tile ''EPSG:2193'') 13 = Inr (PDict Map.empty)"
  using drop_flags_win [of 13 example_schema_util "example_tile ''EPSG:2193''"]
  by (simp add: flag_in_def DROP_FORMAT_def DROP_SCHEMA_def AS_IF_CONVERTED_TO_COPC_def)

section \<open>Properties of the format summary\<close>

lemma contains_iff: "contains s sub \<longleftrightarrow> (\<exists>pre post. s = pre @ sub @ post)"
proof (induction s)
  case Nil
  then show ?case by auto
next
  case (Cons c cs)
  have "startswith (c # cs) sub \<longleftrightarrow> (\<exists>post. c # cs = sub @ post)"
    unfolding startswith_def
    by (metis append_eq_conv_conj append_take_drop_id)
  moreover have "(\<exists>pre post. c # cs = pre @ sub @ post) \<longleftrightarrow>
                 (\<exists>post. c # cs = sub @ post) \<or> (\<exists>pre post. cs = pre @ sub @ post)"
  proof
    assume "\<exists>pre post. c # cs = pre @ sub @ post"
    then obtain pre post where p: "c # cs = pre @ sub @ post" by blast
    show "(\<exists>post. c # cs = sub @ post) \<or> (\<exists>pre post. cs = pre @ sub @ post)"
    proof (cases pre)
      case Nil
      with p show ?thesis by auto
    next
      case (Cons a pre')
      with p have "cs = pre' @ sub @ post" by simp
      then show ?thesis by blast
    qed
  next
    assume "(\<exists>post. c # cs = sub @ post) \<or> (\<exists>pre post. cs = pre @ sub @ post)"
    then show "\<exists>pre post. c # cs = pre @ sub @ post"
    proof
      assume "\<exists>post. c # cs = sub @ post"
      then show ?thesis by (metis append_Nil)
    next
      assume "\<exists>pre post. cs = pre @ sub @ post"
      then obtain pre post where "cs = pre @ sub @ post" by blast
      then have "c # cs = (c # pre) @ sub @ post" by simp
      then show ?thesis by blast
    qed
  qed
  ultimately show ?case using Cons.IH by simp
qed

lemma contains_subset:
  assumes "contains s sub"
  shows "set sub \<subseteq> set s"
proof -
  from assms obtain pre post where "s = pre @ sub @ post"
    unfolding contains_iff by blast
  then show ?thesis by auto
qed

lemma contains_infix: "contains (pre @ sub @ post) sub"
  unfolding contains_iff by blast

lemma not_digit_or_dot [simp]:
  "\<not> digit_or_dot (CHR ''c'')" "\<not> digit_or_dot (CHR ''/'')"
  by (simp_all add: digit_or_dot_def)

lemma digit_or_dot_not_c:
  assumes "list_all digit_or_dot v"
  shows "CHR ''c'' \<notin> set v"
proof
  assume "CHR ''c'' \<in> set v"
  with assms have "digit_or_dot (CHR ''c'')"
    unfolding list_all_iff by blast
  then show False by simp
qed

lemma takeWhile_version:
  assumes "list_all digit_or_dot v" "rest = [] \<or> \<not> digit_or_dot (hd rest)"
  shows "takeWhile digit_or_dot (v @ rest) = v"
proof -
  have "takeWhile digit_or_dot rest = []"
    using assms(2) by (cases rest) auto
  with assms(1) show ?thesis
    by (simp add: list_all_iff)
qed

lemma las_version_match_Cons:
  "las_version_match (c1 # c2 # c3 # c4 # rest) =
     (if c1 \<in> set ''lL'' \<and> c2 \<in> set ''aA'' \<and> c3 \<in> set ''sSzZ'' \<and> c4 = CHR ''-''
         \<and> takeWhile digit_or_dot rest \<noteq> []
      then Some (takeWhile digit_or_dot rest) else None)"
  by (simp only: las_version_match_def list.case)

lemma las_version_match_summary:
  assumes "c = ''las'' \<or> c = ''laz''" "v \<noteq> []" "list_all digit_or_dot v"
    "rest = [] \<or> \<not> digit_or_dot (hd rest)"
  shows "las_version_match (c @ ''-'' @ v @ rest) = Some v"
proof -
  have t: "takeWhile digit_or_dot (v @ rest) = v"
    using assms(3,4) by (rule takeWhile_version)
  from assms(1) show ?thesis
  proof
    assume "c = ''las''"
    then have "c @ ''-'' @ v @ rest = CHR ''l'' # CHR ''a'' # CHR ''s'' # CHR ''-'' # (v @ rest)"
      by simp
    then show ?thesis
      using t assms(2) by (simp add: las_version_match_Cons)
  next
    assume "c = ''laz''"
    then have "c @ ''-'' @ v @ rest = CHR ''l'' # CHR ''a'' # CHR ''z'' # CHR ''-'' # (v @ rest)"
      by simp
    then show ?thesis
      using t assms(2) by (simp add: las_version_match_Cons)
  qed
qed

lemma no_copc_in_plain_summary:
  assumes "c = ''las'' \<or> c = ''laz''" "list_all digit_or_dot v"
  shows "\<not> contains (c @ ''-'' @ v) ''copc''"
proof
  assume "contains (c @ ''-'' @ v) ''copc''"
  then have "set ''copc'' \<subseteq> set (c @ ''-'' @ v)"
    by (rule contains_subset)
  then have "CHR ''c'' \<in> set c \<union> {CHR ''-''} \<union> set v"
    by simp
  with assms(1) digit_or_dot_not_c [OF assms(2)] show False
    by auto
qed

text \<open>
  Claim C6. For every valid format descriptor the summary is returned, \<^verbatim>\<open>is_copc\<close> of the
  summary is true exactly when the optimization field is not \<^verbatim>\<open>None\<close> (that is, equals copc),
  and \<^verbatim>\<open>get_las_version\<close> of the summary is the descriptor's lasVersion.
\<close>

theorem format_summary_inverse_helpers:
  assumes "valid_format f"
  shows "\<exists>s v. get_format_summary container_repr f = Inr s
           \<and> is_copc (PStr s) = Inr (f ''optimization'' \<noteq> Some PNone)
           \<and> (f ''optimization'' \<noteq> Some PNone \<longleftrightarrow> f ''optimization'' = Some (PStr ''copc''))
           \<and> f ''lasVersion'' = Some v
           \<and> get_las_version (PStr s) = Inr v"
proof -
  from assms obtain c v where
    nofj: "f ''format.json'' = None"
    and c: "f ''compression'' = Some (PStr c)" "c = ''las'' \<or> c = ''laz''"
    and v: "f ''lasVersion'' = Some (PStr v)" "v \<noteq> []" "list_all digit_or_dot v"
    and o: "f ''optimization'' = Some PNone
            \<or> (f ''optimization'' = Some (PStr ''copc'') \<and> f ''optimizationVersion'' \<noteq> None)"
    by (auto simp: valid_format_def split: option.splits pyval.splits)
  from o show ?thesis
  proof
    assume plain: "f ''optimization'' = Some PNone"
    have s: "get_format_summary container_repr f = Inr (c @ ''-'' @ v)"
      using nofj c(1) v(1) plain by (simp add: get_format_summary_def getitem_def)
    have "is_copc (PStr (c @ ''-'' @ v)) = Inr False"
      using no_copc_in_plain_summary [OF c(2) v(3)] by (simp add: is_copc_def extract_format_def)
    moreover have "las_version_match (c @ ''-'' @ v @ []) = Some v"
      using c(2) v(2,3) by (intro las_version_match_summary) simp_all
    then have "get_las_version (PStr (c @ ''-'' @ v)) = Inr (PStr v)"
      by (simp add: get_las_version_def extract_format_def)
    ultimately show ?thesis
      using s plain v(1) by simp
  next
    assume copc: "f ''optimization'' = Some (PStr ''copc'') \<and> f ''optimizationVersion'' \<noteq> None"
    then obtain ov where ov: "f ''optimizationVersion'' = Some ov" by auto
    let ?tail = "''/copc-'' @ py_str container_repr ov"
    have s: "get_format_summary container_repr f = Inr (c @ ''-'' @ v @ ?tail)"
      using nofj c(1) v(1) copc ov by (simp add: get_format_summary_def getitem_def)
    have "contains ((c @ ''-'' @ v @ ''/'') @ ''copc'' @ (''-'' @ py_str container_repr ov)) ''copc''"
      by (rule contains_infix)
    then have "is_copc (PStr (c @ ''-'' @ v @ ?tail)) = Inr True"
      by (simp add: is_copc_def extract_format_def)
    moreover have "las_version_match (c @ ''-'' @ v @ ?tail) = Some v"
      using c(2) v(2,3) by (intro las_version_match_summary) (simp_all add: digit_or_dot_def)
    then have "get_las_version (PStr (c @ ''-'' @ v @ ?tail)) = Inr (PStr v)"
      by (simp add: get_las_version_def extract_format_def)
    ultimately show ?thesis
      using s copc v(1) by simp
  qed
qed

lemma example_summaries:
  "get_format_summary r example_format_las = Inr ''las-1.2''"
  "get_format_summary r example_format_copc = Inr ''laz-1.4/copc-1.0''"
  by (simp_all add: get_format_summary_def getitem_def example_format_las_def example_format_copc_def)

lemma example_formats_valid: "valid_format example_format_las" "valid_format example_format_copc"
  by (simp_all add: valid_format_def example_format_las_def example_format_copc_def digit_or_dot_def)

theorem format_summary_inverse_helpers_witness:
  "valid_format example_format_las \<and> valid_format example_format_copc
   \<and> get_format_summary (\<lambda>_. []) example_format_las = Inr ''las-1.2''
   \<and> is_copc (PStr ''las-1.2'') = Inr False
   \<and> get_las_version (PStr ''las-1.2'') = Inr (PStr ''1.2'')
   \<and> get_format_summary (\<lambda>_. []) example_format_copc = Inr ''laz-1.4/copc-1.0''
   \<and> is_copc (PStr ''laz-1.4/copc-1.0'') = Inr True
   \<and> get_las_version (PStr ''laz-1.4/copc-1.0'') = Inr (PStr ''1.4'')"
proof -
  have a: "example_format_las ''optimization'' = Some PNone"
    "example_format_las ''lasVersion'' = Some (PStr ''1.2'')"
    "example_format_copc ''optimization'' = Some (PStr ''copc'')"
    "example_format_copc ''lasVersion'' = Some (PStr ''1.4'')"
    by (simp_all add: example_format_las_def example_format_copc_def)
  show ?thesis
    using format_summary_inverse_helpers [OF example_formats_valid(1), of "\<lambda>_. []"]
      format_summary_inverse_helpers [OF example_formats_valid(2), of "\<lambda>_. []"]
    by (simp add: example_summaries example_formats_valid a)
qed

text \<open>
  Claim C7, as stated (every string outside the summary pattern makes both helpers raise),
  fails: \<^verbatim>\<open>is_copc\<close> returns a boolean on every string, and \<^verbatim>\<open>get_las_version\<close> only looks at the
  start of the string.
\<close>

theorem malformed_summary_counterexample:
  "\<not> matches_summary_pattern ''not a format''
   \<and> is_copc (PStr ''not a format'') = Inr False
   \<and> \<not> matches_summary_pattern ''las-1.2/copc-1.0/extra''
   \<and> is_copc (PStr ''las-1.2/copc-1.0/extra'') = Inr True
   \<and> get_las_version (PStr ''las-1.2/copc-1.0/extra'') = Inr (PStr ''1.2'')"
  by (simp add: matches_summary_pattern_def two_tokens_def is_copc_def get_las_version_def
      extract_format_def startswith_def las_version_match_def digit_or_dot_def)

lemma takeWhile_nonempty_iff: "takeWhile P xs \<noteq> [] \<longleftrightarrow> (xs \<noteq> [] \<and> P (hd xs))"
  by (cases xs) simp_all

lemma las_version_match_None_iff: "las_version_match s = None \<longleftrightarrow> \<not> las_prefix s"
proof (cases s)
  case Nil
  then show ?thesis by (simp add: las_version_match_def las_prefix_def)
next
  case s1: (Cons c1 r1)
  show ?thesis
  proof (cases r1)
    case Nil
    with s1 show ?thesis by (simp add: las_version_match_def las_prefix_def)
  next
    case s2: (Cons c2 r2)
    show ?thesis
    proof (cases r2)
      case Nil
      with s1 s2 show ?thesis by (simp add: las_version_match_def las_prefix_def)
    next
      case s3: (Cons c3 r3)
      show ?thesis
      proof (cases r3)
        case Nil
        with s1 s2 s3 show ?thesis by (simp add: las_version_match_def las_prefix_def)
      next
        case s4: (Cons c4 r4)
        show ?thesis
        proof (cases r4)
          case Nil
          with s1 s2 s3 s4 show ?thesis
            by (simp only: las_version_match_Cons las_prefix_def list.case takeWhile.simps) simp
        next
          case (Cons d r5)
          with s1 s2 s3 s4 show ?thesis
            by (simp only: las_version_match_Cons las_prefix_def list.case takeWhile.simps) simp
        qed
      qed
    qed
  qed
qed

lemma las_version_match_Some:
  assumes "las_version_match s = Some g"
  shows "g = takeWhile digit_or_dot (drop 4 s)"
proof -
  from assms obtain c1 c2 c3 c4 rest where s: "s = c1 # c2 # c3 # c4 # rest"
    unfolding las_version_match_def by (auto split: list.splits)
  from assms have "las_version_match (c1 # c2 # c3 # c4 # rest) = Some g"
    by (simp only: s)
  then have "g = takeWhile digit_or_dot rest"
    by (simp only: las_version_match_Cons split: if_splits) simp_all
  with s show ?thesis by simp
qed

text \<open>
  Claim C7, amended. On a string, \<^verbatim>\<open>is_copc\<close> never raises: it returns whether copc occurs in
  the string. \<^verbatim>\<open>get_las_version\<close> raises ValueError exactly on the strings that do not begin,
  in any letter case, with las- or laz- followed by a digit or a dot; on every other string it
  returns the run of digits and dots that follows the hyphen.
\<close>

theorem inverse_helpers_on_strings:
  "is_copc (PStr s) = Inr (contains s ''copc'')
   \<and> (get_las_version (PStr s) = Inl (ValueError ''Bad tile format'') \<longleftrightarrow> \<not> las_prefix s)
   \<and> (las_prefix s \<longrightarrow>
        get_las_version (PStr s) = Inr (PStr (takeWhile digit_or_dot (drop 4 s))))"
proof (cases "las_version_match s")
  case None
  then show ?thesis
    using las_version_match_None_iff [of s]
    by (simp add: is_copc_def get_las_version_def extract_format_def)
next
  case (Some g)
  then show ?thesis
    using las_version_match_None_iff [of s] las_version_match_Some [OF Some]
    by (simp add: is_copc_def get_las_version_def extract_format_def)
qed

theorem inverse_helpers_on_strings_witness:
  "las_prefix ''LAZ-1.4/copc-1.0''
   \<and> get_las_version (PStr ''LAZ-1.4/copc-1.0'') = Inr (PStr ''1.4'')
   \<and> is_copc (PStr ''LAZ-1.4/copc-1.0'') = Inr True
   \<and> \<not> las_prefix ''copc''
   \<and> get_las_version (PStr ''copc'') = Inl (ValueError ''Bad tile format'')
   \<and> is_copc (PStr ''copc'') = Inr True"
  using inverse_helpers_on_strings [of "''LAZ-1.4/copc-1.0''"]
    inverse_helpers_on_strings [of "''copc''"]
  by (simp add: las_prefix_def digit_or_dot_def startswith_def)

section \<open>Properties of the capture triggers\<close>

lemma trigger_names_distinct:
  "quoted_trigger_name ds ''ins'' \<noteq> quoted_trigger_name ds ''upd''"
  "quoted_trigger_name ds ''ins'' \<noteq> quoted_trigger_name ds ''del''"
  "quoted_trigger_name ds ''upd'' \<noteq> quoted_trigger_name ds ''del''"
  "quoted_trigger_name ds ''upd'' \<noteq> quoted_trigger_name ds ''ins''"
  "quoted_trigger_name ds ''del'' \<noteq> quoted_trigger_name ds ''ins''"
  "quoted_trigger_name ds ''del'' \<noteq> quoted_trigger_name ds ''upd''"
  by (simp_all add: quoted_trigger_name_def)

lemma create_triggers_on_none:
  "triggers sess = [] \<Longrightarrow>
   create_triggers ds sess = (sess\<lparr>triggers := [create_ins ds, create_upd ds, create_del ds]\<rparr>, None)"
  by (simp add: create_triggers_def and_then_def execute_def create_ins_def create_upd_def
      create_del_def trigger_names_distinct)

lemma drop_triggers_tracked:
  "tracked ds sess \<Longrightarrow> drop_triggers ds sess = (sess\<lparr>triggers := []\<rparr>, None)"
  by (simp add: tracked_def drop_triggers_def and_then_def execute_def create_ins_def create_upd_def
      create_del_def trigger_names_distinct)

lemma create_triggers_tracked: "tracked ds (fst (create_triggers ds (empty_session :: 'pk session)))"
  by (simp add: create_triggers_on_none empty_session_def tracked_def)

lemma set_replace_into: "set (replace_into track entry) = insert entry (set track)"
  by (auto simp: replace_into_def)

lemma distinct_replace_into: "distinct track \<Longrightarrow> distinct (replace_into track entry)"
  by (auto simp: replace_into_def)

lemma replace_into_present:
  "entry \<in> set track \<Longrightarrow> distinct track \<Longrightarrow>
   set (replace_into track entry) = set track \<and> length (replace_into track entry) = length track"
proof -
  assume a: "entry \<in> set track" "distinct track"
  have "set (replace_into track entry) = set track"
    using a(1) by (auto simp: set_replace_into)
  moreover have "distinct (replace_into track entry)"
    using a(2) by (rule distinct_replace_into)
  ultimately show ?thesis
    using a(2) by (metis distinct_card)
qed

lemma row_change_tracked:
  assumes "tracked ds sess"
  shows "sno_track (row_change (table_identifier ds) (InsertRow new) sess) =
           replace_into (sno_track sess) (table_name ds, new)"
    and "sno_track (row_change (table_identifier ds) (UpdateRow old new) sess) =
           replace_into (replace_into (sno_track sess) (table_name ds, old)) (table_name ds, new)"
    and "sno_track (row_change (table_identifier ds) (DeleteRow old) sess) =
           replace_into (sno_track sess) (table_name ds, old)"
    and "triggers (row_change (table_identifier ds) ev sess) = triggers sess"
  using assms
  by (simp_all add: tracked_def row_change_def run_trigger_def create_ins_def create_upd_def
      create_del_def List.map_filter_simps)

lemma execute_create_ok:
  assumes "execute (CreateTrigger t) sess = (sess', None)"
  shows "triggers sess' = triggers sess @ [t]" "sno_track sess' = sno_track sess"
  using assms by (auto simp: execute_def split: if_splits)

lemma create_triggers_ok:
  assumes "create_triggers ds sess = (sess', None)"
  shows "triggers sess' = triggers sess @ [create_ins ds, create_upd ds, create_del ds]"
    and "sno_track sess' = sno_track sess"
proof -
  from assms obtain s1 s2 where
    a: "execute (CreateTrigger (create_ins ds)) sess = (s1, None)"
    and b: "execute (CreateTrigger (create_upd ds)) s1 = (s2, None)"
    and c: "execute (CreateTrigger (create_del ds)) s2 = (sess', None)"
    by (auto simp: create_triggers_def and_then_def split: prod.splits option.splits)
  show "triggers sess' = triggers sess @ [create_ins ds, create_upd ds, create_del ds]"
    using execute_create_ok(1) [OF a] execute_create_ok(1) [OF b] execute_create_ok(1) [OF c]
    by simp
  show "sno_track sess' = sno_track sess"
    using execute_create_ok(2) [OF a] execute_create_ok(2) [OF b] execute_create_ok(2) [OF c]
    by simp
qed

text \<open>
  Claim C9. On a session that has the three capture triggers of a dataset and a tracking
  table without duplicates, an insert records \<open>(table, new key)\<close>, an update records
  \<open>(table, old key)\<close> and \<open>(table, new key)\<close>, a delete records \<open>(table, old key)\<close>; the table stays
  free of duplicates and the triggers stay in place; recording a key already present changes
  neither the set nor the number of entries; and from an empty tracking table, inserting a
  row with key \<open>a\<close> and then changing its key to \<open>b\<close> leaves exactly the two entries for
  \<open>a\<close> and \<open>b\<close>, as for the keys 5 and 7. \<^verbatim>\<open>_create_triggers\<close> on a session without triggers
  gives such a session, with an empty tracking table when it started empty.
\<close>

theorem capture_triggers_record_keys:
  fixes sess :: "'pk session"
  assumes "tracked ds sess" and "distinct (sno_track sess)"
  shows "set (sno_track (row_change (table_identifier ds) (InsertRow new) sess)) =
           insert (table_name ds, new) (set (sno_track sess))
       \<and> set (sno_track (row_change (table_identifier ds) (UpdateRow old new) sess)) =
           insert (table_name ds, old) (insert (table_name ds, new) (set (sno_track sess)))
       \<and> set (sno_track (row_change (table_identifier ds) (DeleteRow old) sess)) =
           insert (table_name ds, old) (set (sno_track sess))
       \<and> distinct (sno_track (row_change (table_identifier ds) ev sess))
       \<and> tracked ds (row_change (table_identifier ds) ev sess)
       \<and> ((table_name ds, k) \<in> set (sno_track sess) \<longrightarrow>
            set (sno_track (row_change (table_identifier ds) (InsertRow k) sess)) = set (sno_track sess)
            \<and> length (sno_track (row_change (table_identifier ds) (InsertRow k) sess)) =
                length (sno_track sess))
       \<and> (sno_track sess = [] \<longrightarrow>
            set (sno_track (row_change (table_identifier ds) (UpdateRow a b)
                   (row_change (table_identifier ds) (InsertRow a) sess))) =
              {(table_name ds, a), (table_name ds, b)})
       \<and> create_triggers ds (empty_session :: 'pk session) =
            (\<lparr>triggers = [create_ins ds, create_upd ds, create_del ds], sno_track = []\<rparr>, None)
       \<and> tracked ds (fst (create_triggers ds (empty_session :: 'pk session)))"
proof -
  note rc = row_change_tracked [OF assms(1)]
  have d: "distinct (sno_track (row_change (table_identifier ds) ev sess))"
    using assms(2) by (cases ev) (simp_all add: rc distinct_replace_into)
  have t: "tracked ds (row_change (table_identifier ds) ev sess)" for ev :: "'pk row_event"
    using assms(1) rc(4) [of ev] by (simp add: tracked_def)
  have p: "set (sno_track (row_change (table_identifier ds) (InsertRow k) sess)) = set (sno_track sess)
            \<and> length (sno_track (row_change (table_identifier ds) (InsertRow k) sess)) =
                length (sno_track sess)" if "(table_name ds, k) \<in> set (sno_track sess)"
    using replace_into_present [OF that assms(2)] by (simp add: rc)
  have e: "set (sno_track (row_change (table_identifier ds) (UpdateRow a b)
                   (row_change (table_identifier ds) (InsertRow a) sess))) =
              {(table_name ds, a), (table_name ds, b)}" if "sno_track sess = []"
    using that row_change_tracked(2) [OF t [of "InsertRow a"], of a b] rc(1) [of a]
    by (auto simp: set_replace_into)
  have c: "create_triggers ds (empty_session :: 'pk session) =
            (\<lparr>triggers = [create_ins ds, create_upd ds, create_del ds], sno_track = []\<rparr>, None)"
    by (simp add: create_triggers_on_none empty_session_def)
  show ?thesis
    using d t p e c create_triggers_tracked [of ds, where ?'pk = 'pk]
    by (simp add: rc set_replace_into insert_commute)
qed

theorem capture_triggers_record_keys_witness:
  "create_triggers example_dataset empty_session = (example_tracked, None)
   \<and> tracked example_dataset example_tracked \<and> distinct (sno_track example_tracked)
   \<and> set (sno_track (row_change ''roads'' (UpdateRow 5 7)
            (row_change ''roads'' (InsertRow 5) example_tracked))) = {(''roads'', 5), (''roads'', 7)}
   \<and> set (sno_track (row_change ''roads'' (DeleteRow 5) example_tracked)) = {(''roads'', 5)}"
proof -
  have t: "tracked example_dataset example_tracked"
    by (simp add: tracked_def example_tracked_def)
  have d: "distinct (sno_track example_tracked)" and e: "sno_track example_tracked = []"
    by (simp_all add: example_tracked_def)
  have n: "table_identifier example_dataset = ''roads''" "table_name example_dataset = ''roads''"
    by (simp_all add: table_identifier_def example_dataset_def)
  have c: "create_triggers example_dataset empty_session = (example_tracked, None)"
    by (simp add: create_triggers_on_none empty_session_def example_tracked_def)
  have "set (sno_track (row_change ''roads'' (UpdateRow 5 7)
            (row_change ''roads'' (InsertRow 5) example_tracked))) = {(''roads'', 5), (''roads'', 7)}
   \<and> set (sno_track (row_change ''roads'' (DeleteRow 5) example_tracked)) = {(''roads'', 5)}"
    using capture_triggers_record_keys
      [OF t d, where a = 5 and b = 7 and old = 5 and new = 5 and k = 5 and ev = "DeleteRow 5"]
      e n
    by simp
  with c t d show ?thesis by simp
qed

lemma example_names:
  "table_identifier example_dataset = ''roads''" "table_name example_dataset = ''roads''"
  by (simp_all add: table_identifier_def example_dataset_def)

lemma example_tracked_tracked: "tracked example_dataset example_tracked"
  by (simp add: tracked_def example_tracked_def)

lemma row_change_no_triggers: "triggers sess = [] \<Longrightarrow> row_change table ev sess = sess"
  by (simp add: row_change_def)

text \<open>
  Claim C1, as stated (the triggers are recreated on every exit path), fails when the
  suspended operation raises: the exception leaves \<^verbatim>\<open>_suspend_triggers\<close> at its \<^verbatim>\<open>yield\<close> and the
  session is left without triggers.
\<close>

theorem suspend_triggers_counterexample:
  "tracked example_dataset example_tracked
   \<and> suspend_triggers example_dataset failing_bulk example_tracked =
       (example_tracked\<lparr>triggers := []\<rparr>, Some (DatabaseError ''bulk operation failed''))
   \<and> \<not> tracked example_dataset (fst (suspend_triggers example_dataset failing_bulk example_tracked))"
proof -
  have d: "drop_triggers example_dataset example_tracked = (example_tracked\<lparr>triggers := []\<rparr>, None)"
    using example_tracked_tracked by (rule drop_triggers_tracked)
  have b: "failing_bulk (example_tracked\<lparr>triggers := []\<rparr>) =
             (example_tracked\<lparr>triggers := []\<rparr>, Some (DatabaseError ''bulk operation failed''))"
    by (simp add: failing_bulk_def row_change_no_triggers)
  have s: "suspend_triggers example_dataset failing_bulk example_tracked =
             (example_tracked\<lparr>triggers := []\<rparr>, Some (DatabaseError ''bulk operation failed''))"
    by (simp add: suspend_triggers_def d b)
  show ?thesis
    using example_tracked_tracked s by (simp add: tracked_def)
qed

text \<open>
  Claim C1, amended. When the \<^verbatim>\<open>with\<close> statement ends without an exception the three capture
  triggers exist; in particular, from a session with the triggers in place and an operation
  that returns normally without touching triggers, the result is that operation's session
  with the three triggers recreated. When the operation raises after the triggers were
  dropped, the same exception leaves the \<^verbatim>\<open>with\<close> statement and the session is exactly as the
  operation left it: \<^verbatim>\<open>_create_triggers\<close> is not run.
\<close>

theorem suspend_triggers_exit_paths:
  "(suspend_triggers ds body sess = (sess', None) \<longrightarrow>
      create_ins ds \<in> set (triggers sess') \<and> create_upd ds \<in> set (triggers sess')
      \<and> create_del ds \<in> set (triggers sess'))
   \<and> (drop_triggers ds sess = (sess1, None) \<and> body sess1 = (sess2, Some e) \<longrightarrow>
        suspend_triggers ds body sess = (sess2, Some e))
   \<and> (tracked ds sess \<and> body (sess\<lparr>triggers := []\<rparr>) = (sess3, None) \<and> triggers sess3 = [] \<longrightarrow>
        suspend_triggers ds body sess =
          (sess3\<lparr>triggers := [create_ins ds, create_upd ds, create_del ds]\<rparr>, None))"
proof (intro conjI impI)
  assume a: "suspend_triggers ds body sess = (sess', None)"
  then obtain s2 where "create_triggers ds s2 = (sess', None)"
    by (auto simp: suspend_triggers_def split: prod.splits option.splits)
  from create_triggers_ok(1) [OF this]
  show "create_ins ds \<in> set (triggers sess')" "create_upd ds \<in> set (triggers sess')"
    "create_del ds \<in> set (triggers sess')"
    by simp_all
next
  assume "drop_triggers ds sess = (sess1, None) \<and> body sess1 = (sess2, Some e)"
  then show "suspend_triggers ds body sess = (sess2, Some e)"
    by (simp add: suspend_triggers_def)
next
  assume a: "tracked ds sess \<and> body (sess\<lparr>triggers := []\<rparr>) = (sess3, None) \<and> triggers sess3 = []"
  then have "drop_triggers ds sess = (sess\<lparr>triggers := []\<rparr>, None)"
    by (simp add: drop_triggers_tracked)
  with a show "suspend_triggers ds body sess =
          (sess3\<lparr>triggers := [create_ins ds, create_upd ds, create_del ds]\<rparr>, None)"
    by (simp add: suspend_triggers_def create_triggers_on_none)
qed

theorem suspend_triggers_exit_paths_witness:
  "tracked example_dataset example_tracked
   \<and> bulk_insert (example_tracked\<lparr>triggers := []\<rparr>) = (example_tracked\<lparr>triggers := []\<rparr>, None)
   \<and> suspend_triggers example_dataset bulk_insert example_tracked = (example_tracked, None)
   \<and> drop_triggers example_dataset example_tracked = (example_tracked\<lparr>triggers := []\<rparr>, None)
   \<and> failing_bulk (example_tracked\<lparr>triggers := []\<rparr>) =
       (example_tracked\<lparr>triggers := []\<rparr>, Some (DatabaseError ''bulk operation failed''))
   \<and> suspend_triggers example_dataset failing_bulk example_tracked =
       (example_tracked\<lparr>triggers := []\<rparr>, Some (DatabaseError ''bulk operation failed''))"
proof -
  have b: "bulk_insert (example_tracked\<lparr>triggers := []\<rparr>) = (example_tracked\<lparr>triggers := []\<rparr>, None)"
    by (simp add: bulk_insert_def row_change_no_triggers)
  have d: "drop_triggers example_dataset example_tracked = (example_tracked\<lparr>triggers := []\<rparr>, None)"
    using example_tracked_tracked by (rule drop_triggers_tracked)
  have f: "failing_bulk (example_tracked\<lparr>triggers := []\<rparr>) =
             (example_tracked\<lparr>triggers := []\<rparr>, Some (DatabaseError ''bulk operation failed''))"
    by (simp add: failing_bulk_def row_change_no_triggers)
  have r: "example_tracked\<lparr>triggers := [create_ins example_dataset, create_upd example_dataset,
             create_del example_dataset]\<rparr> = example_tracked"
    by (simp add: example_tracked_def)
  show ?thesis
    using suspend_triggers_exit_paths
      [of example_dataset bulk_insert example_tracked example_tracked
          "example_tracked\<lparr>triggers := []\<rparr>" "example_tracked\<lparr>triggers := []\<rparr>"
          "DatabaseError ''bulk operation failed''" "example_tracked\<lparr>triggers := []\<rparr>"]
      suspend_triggers_exit_paths
      [of example_dataset failing_bulk example_tracked example_tracked
          "example_tracked\<lparr>triggers := []\<rparr>" "example_tracked\<lparr>triggers := []\<rparr>"
          "DatabaseError ''bulk operation failed''" "example_tracked\<lparr>triggers := []\<rparr>"]
      example_tracked_tracked b d f r
    by simp
qed

section \<open>Properties of the meta-diff classification\<close>

lemma map_of_del_step:
  "map_of (if key \<in> fst ` set items then AList.delete key items else items) k =
     (if k = key then None else map_of items k)"
proof (cases "key \<in> fst ` set items")
  case True
  then show ?thesis by (simp add: AList.delete_conv)
next
  case False
  then have "map_of items key = None"
    by (simp add: map_of_eq_None_iff)
  with False show ?thesis by simp
qed

lemma map_of_foldl_del_keys:
  "map_of (foldl (\<lambda>items key. if key \<in> fst ` set items then AList.delete key items else items) d ks) k =
     (if k \<in> set ks then None else map_of d k)"
proof (induction ks arbitrary: d)
  case Nil
  then show ?case by simp
next
  case (Cons a ks)
  show ?case
    by (simp only: foldl_Cons Cons.IH map_of_del_step) auto
qed

lemma map_of_del_unsupported:
  "map_of (del_unsupported d) k = (if k \<in> set UNSUPPORTED_META_ITEMS then None else map_of d k)"
  unfolding del_unsupported_def by (rule map_of_foldl_del_keys)

lemma map_of_foldl_del_crs:
  "map_of (foldl (\<lambda>items key. if startswith key ''crs/'' then AList.delete key items else items) d ks) k =
     (if k \<in> set ks \<and> startswith k ''crs/'' then None else map_of d k)"
proof (induction ks arbitrary: d)
  case Nil
  then show ?case by simp
next
  case (Cons a ks)
  show ?case
    by (simp only: foldl_Cons Cons.IH) (auto simp: AList.delete_conv)
qed

lemma map_of_del_crs:
  "map_of (del_crs d) k = (if startswith k ''crs/'' then None else map_of d k)"
proof -
  have "k \<notin> set (map fst d) \<Longrightarrow> map_of d k = None"
    by (simp add: map_of_eq_None_iff)
  then show ?thesis
    unfolding del_crs_def map_of_foldl_del_crs by auto
qed

lemma diff_dicts_empty_iff: "diff_dicts old new = [] \<longleftrightarrow> map_of old = map_of new"
proof
  assume e: "diff_dicts old new = []"
  show "map_of old = map_of new"
  proof
    fix k
    show "map_of old k = map_of new k"
    proof (cases "k \<in> set (map fst old @ map fst new)")
      case True
      with e show ?thesis
        by (auto simp: diff_dicts_def filter_empty_conv)
    next
      case False
      then have "map_of old k = None" "map_of new k = None"
        by (simp_all add: map_of_eq_None_iff)
      then show ?thesis by simp
    qed
  qed
next
  assume "map_of old = map_of new"
  then show "diff_dicts old new = []"
    by (simp add: diff_dicts_def)
qed

lemma map_of_without_hidden:
  "map_of (without_hidden items) k = (if hidden_key k then None else map_of items k)"
  unfolding without_hidden_def by (induction items) auto

lemma differing_key_in_diff:
  assumes "map_of old k \<noteq> map_of new k"
  shows "k \<in> set (diff_dicts old new)"
proof -
  have "k \<in> set (map fst old @ map fst new)"
  proof (rule ccontr)
    assume "k \<notin> set (map fst old @ map fst new)"
    then have "map_of old k = None" "map_of new k = None"
      by (simp_all add: map_of_eq_None_iff)
    with assms show False by simp
  qed
  with assms show ?thesis
    by (simp add: diff_dicts_def)
qed

lemma meta_items_not_hidden: "hidden_key k \<Longrightarrow> map_of (meta_items s) k = None"
  by (auto simp: meta_items_def hidden_key_def UNSUPPORTED_META_ITEMS_def startswith_def)

text \<open>
  Claim C2. Take a dataset snapshot and a working-copy snapshot that holds no hidden key, as
  every snapshot built from \<^verbatim>\<open>meta_items\<close> does, and a base-class step that adds no key to the
  working-copy snapshot. Then the two snapshots that \<^verbatim>\<open>_remove_hidden_meta_diffs\<close> leaves are,
  as dictionaries, the two it was given by the base class with every unsupported key and
  every \<^verbatim>\<open>crs/\<close> key removed and nothing else changed; no hidden key is left on either side;
  the update is reported as supported in place exactly when the diff of the two cleaned
  snapshots is empty; and a diff confined to the unsupported keys (or, more generally, to the
  hidden keys) is reported as supported. The snapshot that \<^verbatim>\<open>meta_items\<close> yields holds no hidden
  key.
\<close>

theorem hidden_items_removed_then_classified:
  assumes "\<forall>k. hidden_key k \<longrightarrow> map_of wc k = None"
    and "super_remove ds wc = (ds1, wc1)"
    and "fst ` set wc1 \<subseteq> fst ` set wc"
  shows "\<exists>ds' wc'. remove_hidden_meta_diffs super_remove ds wc = (ds', wc')
           \<and> map_of ds' = map_of (without_hidden ds1)
           \<and> map_of wc' = map_of (without_hidden wc1)
           \<and> (\<forall>k. hidden_key k \<longrightarrow> map_of ds' k = None \<and> map_of wc' k = None)
           \<and> (meta_update_supported_in_place super_remove ds wc \<longleftrightarrow>
                diff_dicts (without_hidden ds1) (without_hidden wc1) = [])
           \<and> ((\<forall>k \<in> set (diff_dicts ds1 wc1). k \<in> set UNSUPPORTED_META_ITEMS)
                \<longrightarrow> meta_update_supported_in_place super_remove ds wc)
           \<and> ((\<forall>k \<in> set (diff_dicts ds1 wc1). hidden_key k)
                \<longrightarrow> meta_update_supported_in_place super_remove ds wc)
           \<and> (\<forall>k. hidden_key k \<longrightarrow> map_of (meta_items schema) k = None)"
proof -
  let ?ds' = "del_crs (del_unsupported ds1)"
  have r: "remove_hidden_meta_diffs super_remove ds wc = (?ds', wc1)"
    using assms(2) by (simp add: remove_hidden_meta_diffs_def)
  have wc1_clean: "map_of wc1 k = None" if "hidden_key k" for k
  proof -
    from that assms(1) have "map_of wc k = None" by simp
    then have "k \<notin> fst ` set wc" by (simp add: map_of_eq_None_iff)
    with assms(3) have "k \<notin> fst ` set wc1" by blast
    then show ?thesis by (simp add: map_of_eq_None_iff)
  qed
  have m: "map_of ?ds' = map_of (without_hidden ds1)"
    by (rule ext) (simp add: map_of_del_crs map_of_del_unsupported map_of_without_hidden hidden_key_def)
  have w: "map_of wc1 = map_of (without_hidden wc1)"
    by (rule ext) (simp add: map_of_without_hidden wc1_clean)
  have h: "map_of ?ds' k = None \<and> map_of wc1 k = None" if "hidden_key k" for k
    using that by (simp add: m map_of_without_hidden wc1_clean)
  have c: "meta_update_supported_in_place super_remove ds wc \<longleftrightarrow>
             diff_dicts (without_hidden ds1) (without_hidden wc1) = []"
    using m w
    by (simp add: meta_update_supported_in_place_def r is_meta_update_supported_def
        diff_dicts_empty_iff)
  have s: "meta_update_supported_in_place super_remove ds wc"
    if d: "\<forall>k \<in> set (diff_dicts ds1 wc1). hidden_key k"
  proof -
    have "map_of (without_hidden ds1) k = map_of (without_hidden wc1) k" for k
    proof (cases "hidden_key k")
      case True
      then show ?thesis by (simp add: map_of_without_hidden)
    next
      case False
      with d have "k \<notin> set (diff_dicts ds1 wc1)" by blast
      then have "map_of ds1 k = map_of wc1 k"
        using differing_key_in_diff [of ds1 k wc1] by blast
      with False show ?thesis by (simp add: map_of_without_hidden)
    qed
    then have "map_of (without_hidden ds1) = map_of (without_hidden wc1)" by (rule ext)
    then show ?thesis by (simp add: c diff_dicts_empty_iff)
  qed
  have u: "meta_update_supported_in_place super_remove ds wc"
    if "\<forall>k \<in> set (diff_dicts ds1 wc1). k \<in> set UNSUPPORTED_META_ITEMS"
    using that s by (simp add: hidden_key_def)
  have i: "\<forall>k. hidden_key k \<longrightarrow> map_of (meta_items schema) k = None"
    by (simp add: meta_items_not_hidden)
  from r m w h c s u i show ?thesis by blast
qed

theorem hidden_items_removed_then_classified_witness:
  "diff_dicts example_ds_meta (meta_items ''[fid, geom, name]'') =
     [''title'', ''description'', ''crs/EPSG:4326.wkt'']
   \<and> hidden_key ''title'' \<and> hidden_key ''description'' \<and> hidden_key ''crs/EPSG:4326.wkt''
   \<and> meta_update_supported_in_place Pair example_ds_meta (meta_items ''[fid, geom, name]'')"
proof -
  let ?wc = "meta_items ''[fid, geom, name]'' :: string meta_items"
  have h: "hidden_key ''title''" "hidden_key ''description''" "hidden_key ''crs/EPSG:4326.wkt''"
    by (simp_all add: hidden_key_def UNSUPPORTED_META_ITEMS_def startswith_def)
  have a: "\<forall>k. hidden_key k \<longrightarrow> map_of ?wc k = None"
    by (simp add: meta_items_not_hidden)
  have d: "diff_dicts example_ds_meta ?wc = [''title'', ''description'', ''crs/EPSG:4326.wkt'']"
    by (simp add: diff_dicts_def example_ds_meta_def meta_items_def)
  have b: "\<forall>k \<in> set (diff_dicts example_ds_meta ?wc). hidden_key k"
    using h by (simp add: d)
  have "meta_update_supported_in_place Pair example_ds_meta ?wc"
    using hidden_items_removed_then_classified
      [of ?wc Pair example_ds_meta example_ds_meta ?wc "''[fid, geom, name]''"] a b
    by blast
  with d h show ?thesis by simp
qed

section \<open>Properties of the primary-key finder\<close>

lemma pk_loop_no_flag:
  "\<forall>f \<in> set q. fpk f = 0 \<Longrightarrow> pk_loop q seen = pk_loop [] (seen @ q)"
  by (induction q arbitrary: seen) simp_all

lemma pk_loop_first_flag:
  "\<forall>f \<in> set pre. fpk f = 0 \<Longrightarrow> fpk g \<noteq> 0 \<Longrightarrow>
   pk_loop (pre @ g # post) seen = Inr (fname g)"
  by (induction pre arbitrary: seen) simp_all

text \<open>
  Claim C10. For a table description with at least one column, \<^verbatim>\<open>pk\<close> returns the name of
  the first column whose pk flag is set, if there is one; otherwise the name of the first
  column when its declared type is exactly INTEGER; otherwise it raises ValueError. A
  returned name is always the name of a flagged column or of the first column.
\<close>

theorem pk_first_flagged_or_integer:
  assumes "q \<noteq> []"
  shows "pk q =
           (case List.find (\<lambda>f. fpk f \<noteq> 0) q of
              Some g \<Rightarrow> Inr (fname g)
            | None \<Rightarrow>
                if ftype (hd q) = ''INTEGER'' then Inr (fname (hd q))
                else Inl (ValueError ''No valid GeoPackage primary key field found''))
         \<and> (\<forall>n. pk q = Inr n \<longrightarrow> (\<exists>f \<in> set q. fname f = n \<and> (fpk f \<noteq> 0 \<or> f = hd q)))"
proof -
  have eq: "pk q =
           (case List.find (\<lambda>f. fpk f \<noteq> 0) q of
              Some g \<Rightarrow> Inr (fname g)
            | None \<Rightarrow>
                if ftype (hd q) = ''INTEGER'' then Inr (fname (hd q))
                else Inl (ValueError ''No valid GeoPackage primary key field found''))"
  proof (cases "List.find (\<lambda>f. fpk f \<noteq> 0) q")
    case None
    then have "\<forall>f \<in> set q. fpk f = 0"
      by (auto simp: find_None_iff)
    then have "pk q = pk_loop [] q"
      unfolding pk_def using pk_loop_no_flag [of q "[]"] by simp
    with None assms show ?thesis
      by (cases q) simp_all
  next
    case (Some g)
    then obtain i where i: "i < length q" "fpk (q ! i) \<noteq> 0" "g = q ! i"
      "\<forall>j < i. \<not> fpk (q ! j) \<noteq> 0"
      by (auto simp: find_Some_iff)
    have split: "q = take i q @ g # drop (Suc i) q"
      using i(1,3) by (simp add: id_take_nth_drop)
    have "\<forall>f \<in> set (take i q). fpk f = 0"
      using i(1,4) by (auto simp: in_set_conv_nth)
    then have "pk_loop (take i q @ g # drop (Suc i) q) [] = Inr (fname g)"
      using i(2,3) by (intro pk_loop_first_flag) simp_all
    with split Some show ?thesis
      unfolding pk_def by simp
  qed
  have "\<exists>f \<in> set q. fname f = n \<and> (fpk f \<noteq> 0 \<or> f = hd q)" if r: "pk q = Inr n" for n
  proof (cases "List.find (\<lambda>f. fpk f \<noteq> 0) q")
    case None
    with eq r assms show ?thesis
      by (auto split: if_splits intro!: bexI [of _ "hd q"])
  next
    case (Some g)
    then have "g \<in> set q" "fpk g \<noteq> 0"
      by (auto simp: find_Some_iff)
    with eq r Some show ?thesis
      by auto
  qed
  with eq show ?thesis by blast
qed

theorem pk_first_flagged_or_integer_witness:
  "pk [\<lparr>fname = ''geom'', ftype = ''BLOB'', fpk = 0\<rparr>,
       \<lparr>fname = ''fid'', ftype = ''INTEGER'', fpk = 1\<rparr>,
       \<lparr>fname = ''name'', ftype = ''TEXT'', fpk = 0\<rparr>] = Inr ''fid''
   \<and> (\<exists>f \<in> set [\<lparr>fname = ''geom'', ftype = ''BLOB'', fpk = 0\<rparr>,
       \<lparr>fname = ''fid'', ftype = ''INTEGER'', fpk = 1\<rparr>,
       \<lparr>fname = ''name'', ftype = ''TEXT'', fpk = 0\<rparr>]. fname f = ''fid'' \<and> fpk f \<noteq> 0)"
  using pk_first_flagged_or_integer
    [of "[\<lparr>fname = ''geom'', ftype = ''BLOB'', fpk = 0\<rparr>,
       \<lparr>fname = ''fid'', ftype = ''INTEGER'', fpk = 1\<rparr>,
       \<lparr>fname = ''name'', ftype = ''TEXT'', fpk = 0\<rparr>]"]
  by simp

end
